theory Spec2Isabelle
  imports Main "HOL-Library.Sublist" "HOL-Library.Extended_Nat"
begin

section \<open>Circuit breaker (src/circuit-breaker.ts)\<close>

text \<open>
  \<^verbatim>\<open>LoggerCircuitBreaker\<close> keeps three private fields and a record of options.
  Every \<^verbatim>\<open>Date.now()\<close> the class reads is passed in as the argument \<open>now\<close>
  (milliseconds).  The callback is an arbitrary side effect of the host
  program; the model counts its invocations in \<open>callbackCalls\<close>.
\<close>

record cb_options =
  circuitBreakerCount :: int
  circuitBreakerTime :: int
  circuitBreakerCooldown :: int

record cb_state =
  errorCount :: int
  lastResetTime :: int
  isOpen :: bool
  callbackCalls :: nat

definition new_breaker :: "int \<Rightarrow> cb_state" where
  "new_breaker t0 = \<lparr>errorCount = 0, lastResetTime = t0, isOpen = False, callbackCalls = 0\<rparr>"

definition enable :: "int \<Rightarrow> cb_state \<Rightarrow> cb_state" where
  "enable now s = s\<lparr>errorCount := 0, lastResetTime := now, isOpen := False\<rparr>"

definition isEnabled :: "cb_options \<Rightarrow> int \<Rightarrow> cb_state \<Rightarrow> bool \<times> cb_state" where
  "isEnabled opts now s =
     (if \<not> isOpen s then (True, s)
      else if now - lastResetTime s \<ge> circuitBreakerCooldown opts
        then (True, s\<lparr>isOpen := False, errorCount := 0\<rparr>)
      else (False, s))"

definition incrementErrorCount :: "cb_options \<Rightarrow> int \<Rightarrow> cb_state \<Rightarrow> cb_state" where
  "incrementErrorCount opts now s =
     (if isOpen s then s
      else
        let s1 = (if now - lastResetTime s > circuitBreakerTime opts
                  then s\<lparr>errorCount := 1\<rparr>
                  else s\<lparr>errorCount := errorCount s + 1\<rparr>);
            s2 = s1\<lparr>lastResetTime := now\<rparr>
        in if errorCount s2 \<ge> circuitBreakerCount opts
           then s2\<lparr>isOpen := True, callbackCalls := Suc (callbackCalls s2)\<rparr>
           else s2)"

definition trip :: "int \<Rightarrow> cb_state \<Rightarrow> cb_state" where
  "trip now s = s\<lparr>isOpen := True, lastResetTime := now\<rparr>"

text \<open>A run of consecutive \<^verbatim>\<open>incrementErrorCount()\<close> calls, one per clock reading.\<close>

fun failures :: "cb_options \<Rightarrow> int list \<Rightarrow> cb_state \<Rightarrow> cb_state" where
  "failures opts [] s = s"
| "failures opts (t # ts) s = failures opts ts (incrementErrorCount opts t s)"

text \<open>
  The calls stay within the window when no call finds
  \<^verbatim>\<open>now - lastResetTime > circuitBreakerTime\<close>; \<open>prev\<close> is the value of
  \<^verbatim>\<open>lastResetTime\<close> the next call will see.
\<close>

fun within_window :: "cb_options \<Rightarrow> int \<Rightarrow> int list \<Rightarrow> bool" where
  "within_window opts prev [] = True"
| "within_window opts prev (t # ts) =
     (\<not> t - prev > circuitBreakerTime opts \<and> within_window opts t ts)"


section \<open>Log rotation (src/log.rotation.ts)\<close>

subsection \<open>Size strings\<close>

text \<open>
  The size string is a JavaScript string, a sequence of UTF-16 code units;
  \<^verbatim>\<open>toLowerCase()\<close> and the class \<^verbatim>\<open>\s\<close> tell code units above Latin-1 apart, so
  the model keeps the code units as numbers.  \<open>utf16\<close> writes an 8-bit literal
  as such a string.
\<close>

type_synonym js_string = "nat list"

definition utf16 :: "string \<Rightarrow> js_string" where
  "utf16 s = map of_char s"

text \<open>
  \<^verbatim>\<open>\d\<close> is the class \<^verbatim>\<open>[0-9]\<close>.  \<^verbatim>\<open>\s\<close> is the white space and the line
  terminators of ECMAScript: tab, line feed, vertical tab, form feed, carriage
  return, space, no-break space, U+1680, U+2000 to U+200A, U+2028, U+2029,
  U+202F, U+205F, U+3000 and U+FEFF.
\<close>

definition digit_unit :: "nat \<Rightarrow> bool" where
  "digit_unit c = (48 \<le> c \<and> c \<le> 57)"

definition space_unit :: "nat \<Rightarrow> bool" where
  "space_unit c =
     ((9 \<le> c \<and> c \<le> 13) \<or> c = 0x20 \<or> c = 0xA0 \<or> c = 0x1680 \<or>
      (0x2000 \<le> c \<and> c \<le> 0x200A) \<or> c = 0x2028 \<or> c = 0x2029 \<or> c = 0x202F \<or>
      c = 0x205F \<or> c = 0x3000 \<or> c = 0xFEFF)"

text \<open>The unit letters of the pattern: b, k, m and g.\<close>

definition unit_unit :: "nat \<Rightarrow> bool" where
  "unit_unit c = (c = 0x62 \<or> c = 0x6B \<or> c = 0x6D \<or> c = 0x67)"

text \<open>
  \<^verbatim>\<open>toLowerCase()\<close> on the code units whose lower-case form the pattern can
  accept: the letters A to Z, and the Kelvin sign U+212A, whose lower-case
  form is the letter k.  Every other code unit is kept: digits, the dot,
  white space and lower-case letters are their own lower-case form, and no
  other character has a lower-case form that holds a digit, a dot, a white
  space or one of b, k, m, g, so that a string with such a character fails the
  pattern before and after the mapping alike.
\<close>

definition toLowerCase_unit :: "nat \<Rightarrow> nat" where
  "toLowerCase_unit c =
     (if 0x41 \<le> c \<and> c \<le> 0x5A then c + 0x20
      else if c = 0x212A then 0x6B
      else c)"

definition toLowerCase :: "js_string \<Rightarrow> js_string" where
  "toLowerCase s = map toLowerCase_unit s"

definition digit_val :: "nat \<Rightarrow> nat" where
  "digit_val c = c - 48"

definition digits_val :: "js_string \<Rightarrow> nat" where
  "digits_val ds = foldl (\<lambda>a c. 10 * a + digit_val c) 0 ds"

text \<open>
  The pattern \<^verbatim>\<open>/^(\d+(?:\.\d+)?)\s*([bkmg])?$/\<close>.  The character classes
  of its parts are disjoint, so the greedy match is the only candidate: the
  longest run of digits, then a dot with the longest non-empty run of digits
  if there is one, then the longest run of white space, then at most one unit
  letter, then the end of the string.  The result holds the text of the first
  group and the unit letter of the second, if it took part.
\<close>

definition match_size :: "js_string \<Rightarrow> (js_string \<times> nat option) option" where
  "match_size s =
     (let ip = takeWhile digit_unit s; r1 = dropWhile digit_unit s in
      if ip = [] then None
      else
        let (fp, r2) =
              (case r1 of
                 c # r \<Rightarrow>
                   if c = 0x2E \<and> takeWhile digit_unit r \<noteq> []
                   then (0x2E # takeWhile digit_unit r, dropWhile digit_unit r)
                   else ([], r1)
               | [] \<Rightarrow> ([], r1));
            r3 = dropWhile space_unit r2
        in case r3 of
             [] \<Rightarrow> Some (ip @ fp, None)
           | [u] \<Rightarrow> if unit_unit u then Some (ip @ fp, Some u) else None
           | _ \<Rightarrow> None)"

definition units :: "nat \<Rightarrow> nat" where
  "units u =
     (if u = 0x62 then 1
      else if u = 0x6B then 1024
      else if u = 0x6D then 1024 * 1024
      else if u = 0x67 then 1024 * 1024 * 1024
      else 1)"

subsection \<open>Numbers\<close>

text \<open>
  A JavaScript number is an IEEE 754 double.  \<^verbatim>\<open>parseSize\<close> computes with
  non-negative numbers only: \<open>Finite m e\<close> is the double \<open>m * 2 ^ e\<close>, and
  \<open>Infinity\<close> is what a result of \<open>2 ^ 1024\<close> or more becomes.

  \<open>to_double p q\<close> is the double nearest to the fraction \<open>p / q\<close> (\<open>q\<close> not
  zero), ties to the even significand: the exponent is that of the last place
  of a 53-bit significand, not below the \<open>- 1074\<close> of the subnormal numbers,
  and the significand is the fraction divided by two to that exponent,
  rounded.
\<close>

datatype double = Finite nat int | Infinity

fun bitlen :: "nat \<Rightarrow> nat" where
  "bitlen n = (if n = 0 then 0 else Suc (bitlen (n div 2)))"

declare bitlen.simps [simp del]

definition floor_log2 :: "nat \<Rightarrow> nat \<Rightarrow> int" where
  "floor_log2 p q =
     (let l = int (bitlen p) - int (bitlen q)
      in if q * 2 ^ nat l \<le> p * 2 ^ nat (- l) then l else l - 1)"

definition round_half_even :: "nat \<Rightarrow> nat \<Rightarrow> nat" where
  "round_half_even num den =
     (let q = num div den; r = num mod den
      in if 2 * r < den then q
         else if den < 2 * r then q + 1
         else if even q then q else q + 1)"

definition to_double :: "nat \<Rightarrow> nat \<Rightarrow> double" where
  "to_double p q =
     (if p = 0 then Finite 0 0
      else
        let e = max (floor_log2 p q - 52) (- 1074);
            m = round_half_even (p * 2 ^ nat (- e)) (q * 2 ^ nat e)
        in if 0 \<le> e \<and> 2 ^ 1024 \<le> m * 2 ^ nat e then Infinity else Finite m e)"

text \<open>
  The product of a double and a whole number that is a double itself (the
  multiples of the units are), rounded as every arithmetic operation is.
\<close>

definition double_times :: "double \<Rightarrow> nat \<Rightarrow> double" where
  "double_times d n =
     (case d of
        Infinity \<Rightarrow> Infinity
      | Finite m e \<Rightarrow> to_double (m * n * 2 ^ nat e) (2 ^ nat (- e)))"

text \<open>\<^verbatim>\<open>Math.floor\<close>: exact, and \<open>Infinity\<close> stays what it is.\<close>

definition Math_floor :: "double \<Rightarrow> enat" where
  "Math_floor d =
     (case d of
        Infinity \<Rightarrow> \<infinity>
      | Finite m e \<Rightarrow> enat (m * 2 ^ nat e div 2 ^ nat (- e)))"

text \<open>
  \<^verbatim>\<open>parseFloat\<close> on the texts the first group of the pattern can hold: digits,
  optionally followed by a dot and digits (no sign, no exponent, no leading
  white space).  The number read is \<open>digits_val (ip @ fp) / 10 ^ length fp\<close>
  for the integer digits \<open>ip\<close> and the fraction digits \<open>fp\<close>, rounded to the
  nearest double.
\<close>

definition parseFloat :: "js_string \<Rightarrow> double" where
  "parseFloat s =
     (let ip = takeWhile digit_unit s;
          fp = (case dropWhile digit_unit s of
                  c # r \<Rightarrow> if c = 0x2E then takeWhile digit_unit r else []
                | [] \<Rightarrow> [])
      in to_double (digits_val (ip @ fp)) (10 ^ length fp))"

definition parseSize :: "js_string \<Rightarrow> enat" where
  "parseSize sizeStr =
     (case match_size (toLowerCase sizeStr) of
        None \<Rightarrow> enat (10 * 1024 * 1024)
      | Some (num, u) \<Rightarrow>
          let size = parseFloat num;
              unit = (case u of None \<Rightarrow> 0x62 | Some c \<Rightarrow> c)
          in Math_floor (double_times size (units unit)))"

text \<open>
  The strings the pattern accepts, written out: integer digits \<open>ip\<close>, an
  optional fraction \<open>fp\<close> after a dot, white space \<open>ws\<close>, an optional unit
  letter \<open>u\<close>: one of b, k, m, g in either case, or the Kelvin sign.
\<close>

definition number_text :: "js_string \<Rightarrow> js_string \<Rightarrow> js_string" where
  "number_text ip fp = ip @ (if fp = [] then [] else 0x2E # fp)"

definition size_spec_string :: "js_string \<Rightarrow> js_string \<Rightarrow> js_string \<Rightarrow> nat option \<Rightarrow> js_string" where
  "size_spec_string ip fp ws u =
     number_text ip fp @ ws @ (case u of None \<Rightarrow> [] | Some c \<Rightarrow> [c])"

definition unit_letter :: "nat \<Rightarrow> bool" where
  "unit_letter c =
     (unit_unit c \<or> c = 0x42 \<or> c = 0x4B \<or> c = 0x4D \<or> c = 0x47 \<or> c = 0x212A)"

definition size_spec_parts :: "js_string \<Rightarrow> js_string \<Rightarrow> js_string \<Rightarrow> nat option \<Rightarrow> bool" where
  "size_spec_parts ip fp ws u =
     (ip \<noteq> [] \<and> list_all digit_unit ip \<and> list_all digit_unit fp \<and> list_all space_unit ws \<and>
      (case u of None \<Rightarrow> True | Some c \<Rightarrow> unit_letter c))"

definition unit_multiple :: "nat option \<Rightarrow> nat" where
  "unit_multiple u = (case u of None \<Rightarrow> 1 | Some c \<Rightarrow> units (toLowerCase_unit c))"

text \<open>
  The grammar as the specification words it, for comparison with the pattern:
  an optional decimal number followed by an optional unit suffix b, k, m or g
  in either case, and nothing else.
\<close>

definition spec_size_grammar :: "js_string \<Rightarrow> bool" where
  "spec_size_grammar s =
     (let ip = takeWhile digit_unit s; r1 = dropWhile digit_unit s;
          r2 = (if ip = [] then r1
                else case r1 of
                       c # r \<Rightarrow>
                         if c = 0x2E \<and> takeWhile digit_unit r \<noteq> []
                         then dropWhile digit_unit r else r1
                     | [] \<Rightarrow> r1)
      in r2 = [] \<or> (\<exists>u \<in> set (utf16 ''bkmgBKMG''). r2 = [u]))"

subsection \<open>The directory of the log file\<close>

text \<open>
  The rotator works in one directory, \<^verbatim>\<open>dirname(filePath)\<close>; the model is that
  directory, as the list of its entries in the order \<^verbatim>\<open>readdirSync\<close> reports
  them (each with what \<^verbatim>\<open>statSync\<close> tells about it), and a file path is the name of an entry (a name holds no path
  separator).  An entry that is \<open>locked\<close> cannot be unlinked or renamed: the
  system call fails and the Node function throws.
\<close>

record file_stat =
  st_size :: nat
  mtime :: int
  locked :: bool

type_synonym directory = "(string \<times> file_stat) list"

datatype fs_error = ENOENT | EPERM

definition existsSync :: "directory \<Rightarrow> string \<Rightarrow> bool" where
  "existsSync d n = (map_of d n \<noteq> None)"

definition statSync :: "directory \<Rightarrow> string \<Rightarrow> fs_error + file_stat" where
  "statSync d n = (case map_of d n of None \<Rightarrow> Inl ENOENT | Some f \<Rightarrow> Inr f)"

definition renameSync :: "directory \<Rightarrow> string \<Rightarrow> string \<Rightarrow> fs_error + directory" where
  "renameSync d old new =
     (case map_of d old of
        None \<Rightarrow> Inl ENOENT
      | Some f \<Rightarrow>
          if locked f \<or> (case map_of d new of None \<Rightarrow> False | Some g \<Rightarrow> locked g)
          then Inl EPERM
          else if old = new then Inr d
          else Inr (filter (\<lambda>e. fst e \<noteq> old \<and> fst e \<noteq> new) d @ [(new, f)]))"

definition unlinkSync :: "directory \<Rightarrow> string \<Rightarrow> fs_error + directory" where
  "unlinkSync d n =
     (case map_of d n of
        None \<Rightarrow> Inl ENOENT
      | Some f \<Rightarrow> if locked f then Inl EPERM else Inr (filter (\<lambda>e. fst e \<noteq> n) d))"

subsection \<open>Names\<close>

text \<open>
  \<^verbatim>\<open>path.extname\<close> on a name: the part from the last dot on, or the empty
  string when there is no dot, when the last dot is the first character, or
  when the name is \<^verbatim>\<open>..\<close>.  \<^verbatim>\<open>path.basename(name, ext)\<close> removes that
  extension.
\<close>

definition extname :: "string \<Rightarrow> string" where
  "extname n =
     (let after = rev (takeWhile (\<lambda>c. c \<noteq> CHR ''.'') (rev n)) in
      if CHR ''.'' \<notin> set n \<or> length after + 1 = length n \<or> n = ''..'' then []
      else CHR ''.'' # after)"

definition basename_ext :: "string \<Rightarrow> string \<Rightarrow> string" where
  "basename_ext n ext =
     (if ext \<noteq> [] \<and> length ext \<le> length n
      then (if ext = n then []
            else if suffix ext n then take (length n - length ext) n else n)
      else n)"

subsection \<open>LogRotator\<close>

record rotation_options =
  enabled :: bool
  maxSize :: js_string
  maxFiles :: int
  compress :: bool

text \<open>
  The time stamp of a rotated file, from the string \<open>isoStr\<close> that
  \<^verbatim>\<open>new Date().toISOString()\<close> returned:
  \<^verbatim>\<open>.replace(/[:.]/g, '-').replace('T', '_').split('Z')[0]\<close>.
\<close>

fun replace_first :: "char \<Rightarrow> char \<Rightarrow> string \<Rightarrow> string" where
  "replace_first a b [] = []"
| "replace_first a b (c # cs) = (if c = a then b # cs else c # replace_first a b cs)"

definition rotation_timestamp :: "string \<Rightarrow> string" where
  "rotation_timestamp isoStr =
     takeWhile (\<lambda>c. c \<noteq> CHR ''Z'')
       (replace_first (CHR ''T'') (CHR ''_'')
          (map (\<lambda>c. if c = CHR '':'' \<or> c = CHR ''.'' then CHR ''-'' else c) isoStr))"

definition rotatedPath :: "string \<Rightarrow> string \<Rightarrow> string" where
  "rotatedPath isoStr filePath =
     basename_ext filePath (extname filePath) @ ''-'' @ rotation_timestamp isoStr @ extname filePath"

definition rotateFile :: "string \<Rightarrow> string \<Rightarrow> directory \<Rightarrow> directory" where
  "rotateFile isoStr filePath d =
     (case renameSync d filePath (rotatedPath isoStr filePath) of
        Inl err \<Rightarrow> d
      | Inr d' \<Rightarrow> d')"

text \<open>
  \<^verbatim>\<open>cleanupOldFiles\<close>: the entries whose name starts with the base name, ends
  with the extension and is not the active file's name, sorted by modification
  time, newest first (\<^verbatim>\<open>Array.prototype.sort\<close> is stable), and every entry
  from index \<open>maxFiles\<close> on unlinked, each inside its own \<^verbatim>\<open>try\<close>.
\<close>

definition is_sibling :: "string \<Rightarrow> string \<Rightarrow> bool" where
  "is_sibling filePath n =
     (prefix (basename_ext filePath (extname filePath)) n \<and>
      suffix (extname filePath) n \<and> n \<noteq> filePath)"

definition siblings :: "string \<Rightarrow> directory \<Rightarrow> (string \<times> file_stat) list" where
  "siblings filePath d = filter (\<lambda>e. is_sibling filePath (fst e)) d"

definition slice_from :: "int \<Rightarrow> 'a list \<Rightarrow> 'a list" where
  "slice_from start xs =
     (if start < 0 then drop (nat (int (length xs) + start)) xs else drop (nat start) xs)"

definition try_unlink :: "directory \<Rightarrow> string \<Rightarrow> directory" where
  "try_unlink d n = (case unlinkSync d n of Inl err \<Rightarrow> d | Inr d' \<Rightarrow> d')"

definition cleanupOldFiles :: "rotation_options \<Rightarrow> string \<Rightarrow> directory \<Rightarrow> directory" where
  "cleanupOldFiles opts filePath d =
     (let files = sort_key (\<lambda>e. - mtime (snd e)) (siblings filePath d) in
      if int (length files) > maxFiles opts
      then foldl try_unlink d (map fst (slice_from (maxFiles opts) files))
      else d)"

definition checkAndRotate :: "rotation_options \<Rightarrow> string \<Rightarrow> string \<Rightarrow> directory \<Rightarrow> directory" where
  "checkAndRotate opts isoStr filePath d =
     (if \<not> enabled opts then d
      else if \<not> existsSync d filePath then d
      else case statSync d filePath of
             Inl err \<Rightarrow> d
           | Inr stats \<Rightarrow>
               if enat (st_size stats) > parseSize (maxSize opts)
               then cleanupOldFiles opts filePath (rotateFile isoStr filePath d)
               else d)"

text \<open>The number of siblings of the active file modified later than \<open>f\<close>.\<close>

definition newer_count :: "string \<Rightarrow> directory \<Rightarrow> file_stat \<Rightarrow> nat" where
  "newer_count filePath d f =
     length (filter (\<lambda>e. mtime (snd e) > mtime f) (siblings filePath d))"

text \<open>
  The shape of the string \<^verbatim>\<open>toISOString()\<close> returns,
  \<^verbatim>\<open>YYYY-MM-DDTHH:mm:ss.sssZ\<close>, from its seven groups of decimal digits.
\<close>

definition is_digit :: "char \<Rightarrow> bool" where
  "is_digit c = (c \<in> set ''0123456789'')"

definition iso_string ::
  "string \<Rightarrow> string \<Rightarrow> string \<Rightarrow> string \<Rightarrow> string \<Rightarrow> string \<Rightarrow> string \<Rightarrow> string" where
  "iso_string yr mo dy hr mi sc ms =
     yr @ ''-'' @ mo @ ''-'' @ dy @ ''T'' @ hr @ '':'' @ mi @ '':'' @ sc @ ''.'' @ ms @ ''Z''"

text \<open>
  The rotated name as the specification words it, for comparison: the base
  name, a hyphen, the ISO time stamp with colons and dots replaced by hyphens,
  and the extension.
\<close>

definition spec_rotatedPath :: "string \<Rightarrow> string \<Rightarrow> string" where
  "spec_rotatedPath isoStr filePath =
     basename_ext filePath (extname filePath) @ ''-'' @
     map (\<lambda>c. if c = CHR '':'' \<or> c = CHR ''.'' then CHR ''-'' else c) isoStr @
     extname filePath"


section \<open>Formatter and logger (src/logger.ts)\<close>

subsection \<open>Colours\<close>

definition ESC :: char where
  "ESC = CHR 0x1B"

definition Colors_reset :: string where "Colors_reset = ESC # ''[0m''"
definition Colors_bright :: string where "Colors_bright = ESC # ''[1m''"
definition Colors_dim :: string where "Colors_dim = ESC # ''[2m''"
definition Colors_red :: string where "Colors_red = ESC # ''[31m''"
definition Colors_green :: string where "Colors_green = ESC # ''[32m''"
definition Colors_yellow :: string where "Colors_yellow = ESC # ''[33m''"
definition Colors_blue :: string where "Colors_blue = ESC # ''[34m''"
definition Colors_cyan :: string where "Colors_cyan = ESC # ''[36m''"

datatype level = Debug | Info | Warn | Error

definition level_name :: "level \<Rightarrow> string" where
  "level_name l = (case l of Debug \<Rightarrow> ''debug'' | Info \<Rightarrow> ''info'' | Warn \<Rightarrow> ''warn'' | Error \<Rightarrow> ''error'')"

definition level_upper :: "level \<Rightarrow> string" where
  "level_upper l = (case l of Debug \<Rightarrow> ''DEBUG'' | Info \<Rightarrow> ''INFO'' | Warn \<Rightarrow> ''WARN'' | Error \<Rightarrow> ''ERROR'')"

definition DefaultLevelColors :: "level \<Rightarrow> string" where
  "DefaultLevelColors l =
     (case l of Debug \<Rightarrow> Colors_cyan | Info \<Rightarrow> Colors_green
              | Warn \<Rightarrow> Colors_yellow | Error \<Rightarrow> Colors_red)"

text \<open>
  \<^verbatim>\<open>getColorCode\<close> returns \<^verbatim>\<open>colorMap[colorName] || \<close>\<^verbatim>\<open>''\<close>.  The table is an
  object literal, so a name it does not hold is looked up in
  \<^verbatim>\<open>Object.prototype\<close>: for the name of one of its members the result is that
  member, a function or, for \<^verbatim>\<open>__proto__\<close>, the prototype object itself, and
  the template of the formatter prints it as text.  The model returns that
  text.  Every other name gives the empty string.
\<close>

definition colorMap :: "(string \<times> string) list" where
  "colorMap =
     [(''black'', ESC # ''[30m''), (''red'', ESC # ''[31m''), (''green'', ESC # ''[32m''),
      (''yellow'', ESC # ''[33m''), (''blue'', ESC # ''[34m''), (''magenta'', ESC # ''[35m''),
      (''cyan'', ESC # ''[36m''), (''white'', ESC # ''[37m''),
      (''brightRed'', ESC # ''[91m''), (''brightGreen'', ESC # ''[92m''),
      (''brightYellow'', ESC # ''[93m''), (''brightBlue'', ESC # ''[94m''),
      (''brightMagenta'', ESC # ''[95m''), (''brightCyan'', ESC # ''[96m''),
      (''brightWhite'', ESC # ''[97m'')]"

definition native_function :: "string \<Rightarrow> string" where
  "native_function name = ''function '' @ name @ ''() { [native code] }''"

definition Object_prototype :: "(string \<times> string) list" where
  "Object_prototype =
     [(''constructor'', native_function ''Object''),
      (''__defineGetter__'', native_function ''__defineGetter__''),
      (''__defineSetter__'', native_function ''__defineSetter__''),
      (''hasOwnProperty'', native_function ''hasOwnProperty''),
      (''__lookupGetter__'', native_function ''__lookupGetter__''),
      (''__lookupSetter__'', native_function ''__lookupSetter__''),
      (''isPrototypeOf'', native_function ''isPrototypeOf''),
      (''propertyIsEnumerable'', native_function ''propertyIsEnumerable''),
      (''toString'', native_function ''toString''),
      (''valueOf'', native_function ''valueOf''),
      (''__proto__'', ''[object Object]''),
      (''toLocaleString'', native_function ''toLocaleString'')]"

definition getColorCode :: "string \<Rightarrow> string" where
  "getColorCode colorName =
     (case map_of colorMap colorName of
        Some c \<Rightarrow> c
      | None \<Rightarrow>
          (case map_of Object_prototype colorName of Some member \<Rightarrow> member | None \<Rightarrow> []))"

text \<open>An optional string is truthy when it is present and not empty.\<close>

definition truthy :: "string option \<Rightarrow> bool" where
  "truthy v = (case v of None \<Rightarrow> False | Some s \<Rightarrow> s \<noteq> [])"

definition color_of :: "string option \<Rightarrow> string" where
  "color_of v = (if truthy v then getColorCode (the v) else [])"

subsection \<open>removeColors\<close>

text \<open>
  One match of \<^verbatim>\<open>/\x1b\[[0-9;]*m/\<close> at the start of a string: the result is what
  follows the match.  The parameter class does not hold \<^verbatim>\<open>m\<close>, so only the longest
  run of parameters can be followed by it.
\<close>

definition sgr_param :: "char \<Rightarrow> bool" where
  "sgr_param c = (c \<in> set ''0123456789;'')"

definition match_sgr :: "string \<Rightarrow> string option" where
  "match_sgr s =
     (case s of
        e # b # r \<Rightarrow>
          if e = ESC \<and> b = CHR ''[''
          then (case dropWhile sgr_param r of
                  m # rest \<Rightarrow> if m = CHR ''m'' then Some rest else None
                | [] \<Rightarrow> None)
          else None
      | _ \<Rightarrow> None)"

text \<open>
  \<^verbatim>\<open>str.replace(/\x1b\[[0-9;]*m/g, '')\<close>: one pass from left to right; after a
  match the scan goes on behind it.
\<close>

function removeColors :: "string \<Rightarrow> string" where
  "removeColors [] = []"
| "removeColors (c # cs) =
     (case match_sgr (c # cs) of
        Some rest \<Rightarrow> removeColors rest
      | None \<Rightarrow> c # removeColors cs)"
  by pat_completeness auto
termination
proof (relation "measure length")
  show "wf (measure length)" by simp
next
  fix c cs rest
  assume a: "match_sgr (c # cs) = Some rest"
  then obtain b r where s: "cs = b # r"
    by (auto simp: match_sgr_def split: list.splits)
  with a have "dropWhile sgr_param r = CHR ''m'' # rest"
    by (auto simp: match_sgr_def split: list.splits if_splits)
  then have "length (dropWhile sgr_param r) = Suc (length rest)" by simp
  moreover have "length (dropWhile sgr_param r) \<le> length r" by (rule length_dropWhile_le)
  ultimately show "(rest, c # cs) \<in> measure length" using s by simp
next
  fix c cs
  show "(cs, c # cs) \<in> measure length" by simp
qed

text \<open>A string holds a colour sequence when the pattern matches somewhere in it.\<close>

fun has_sgr :: "string \<Rightarrow> bool" where
  "has_sgr [] = False"
| "has_sgr (c # cs) = (match_sgr (c # cs) \<noteq> None \<or> has_sgr cs)"

subsection \<open>Metadata and JSON.stringify\<close>

text \<open>
  The values a metadata object can hold, as far as \<^verbatim>\<open>JSON.stringify\<close> tells them
  apart: \<open>JCircular\<close> is a reference back to an object that encloses it, and
  \<open>JBigInt\<close> a BigInt; on both \<^verbatim>\<open>JSON.stringify\<close> throws a TypeError.  Numbers
  are integers.
\<close>

datatype json =
    JNull
  | JBool bool
  | JNum int
  | JStr string
  | JArr "json list"
  | JObj "(string \<times> json) list"
  | JCircular
  | JBigInt int

datatype js_error = TypeError

fun show_nat :: "nat \<Rightarrow> string" where
  "show_nat n =
     (if n < 10 then [''0123456789'' ! n]
      else show_nat (n div 10) @ [''0123456789'' ! (n mod 10)])"

definition show_int :: "int \<Rightarrow> string" where
  "show_int i = (if i < 0 then CHR ''-'' # show_nat (nat (- i)) else show_nat (nat i))"

text \<open>
  The escapes of \<^verbatim>\<open>JSON.stringify\<close>: the quote, the backslash, the short forms
  of five control characters, and \<^verbatim>\<open>\u00XX\<close> for the other code units below
  0x20.
\<close>

definition escape_char :: "char \<Rightarrow> string" where
  "escape_char c =
     (if c = CHR 0x22 then [CHR 0x5C, CHR 0x22]
      else if c = CHR 0x5C then [CHR 0x5C, CHR 0x5C]
      else if c = CHR 0x08 then [CHR 0x5C, CHR ''b'']
      else if c = CHR 0x09 then [CHR 0x5C, CHR ''t'']
      else if c = CHR 0x0A then [CHR 0x5C, CHR ''n'']
      else if c = CHR 0x0C then [CHR 0x5C, CHR ''f'']
      else if c = CHR 0x0D then [CHR 0x5C, CHR ''r'']
      else if (of_char c :: nat) < 32
        then [CHR 0x5C, CHR ''u'', CHR ''0'', CHR ''0'',
              ''0123456789abcdef'' ! (of_char c div 16),
              ''0123456789abcdef'' ! (of_char c mod 16)]
      else [c])"

definition quote :: "string \<Rightarrow> string" where
  "quote s = CHR 0x22 # concat (map escape_char s) @ [CHR 0x22]"

fun join_comma :: "string list \<Rightarrow> string" where
  "join_comma [] = []"
| "join_comma [s] = s"
| "join_comma (s # t # ss) = s @ '','' @ join_comma (t # ss)"

fun stringify :: "json \<Rightarrow> js_error + string"
  and stringify_items :: "json list \<Rightarrow> js_error + string list"
  and stringify_fields :: "(string \<times> json) list \<Rightarrow> js_error + string list" where
  "stringify JNull = Inr ''null''"
| "stringify (JBool b) = Inr (if b then ''true'' else ''false'')"
| "stringify (JNum n) = Inr (show_int n)"
| "stringify (JStr s) = Inr (quote s)"
| "stringify (JArr xs) =
     (case stringify_items xs of
        Inl e \<Rightarrow> Inl e
      | Inr ss \<Rightarrow> Inr (''['' @ join_comma ss @ '']''))"
| "stringify (JObj fs) =
     (case stringify_fields fs of
        Inl e \<Rightarrow> Inl e
      | Inr ss \<Rightarrow> Inr (''{'' @ join_comma ss @ ''}''))"
| "stringify JCircular = Inl TypeError"
| "stringify (JBigInt n) = Inl TypeError"
| "stringify_items [] = Inr []"
| "stringify_items (x # xs) =
     (case stringify x of
        Inl e \<Rightarrow> Inl e
      | Inr s \<Rightarrow>
          (case stringify_items xs of
             Inl e \<Rightarrow> Inl e
           | Inr ss \<Rightarrow> Inr (s # ss)))"
| "stringify_fields [] = Inr []"
| "stringify_fields (kv # fs) =
     (case stringify (snd kv) of
        Inl e \<Rightarrow> Inl e
      | Inr s \<Rightarrow>
          (case stringify_fields fs of
             Inl e \<Rightarrow> Inl e
           | Inr ss \<Rightarrow> Inr ((quote (fst kv) @ '':'' @ s) # ss)))"

subsection \<open>formatLog\<close>

record error_object =
  message :: string
  stack :: "string option"

record log_options =
  functionName :: string
  metadata :: "(string \<times> json) list option"
  error :: "error_object option"
  customColor :: "string option"
  logColor :: "string option"
  fullLogColor :: "string option"

text \<open>
  What \<^verbatim>\<open>formatLog\<close> reads from its surroundings: the store of the
  \<^verbatim>\<open>AsyncLocalStorage\<close> (absent outside every scope), the string the next
  \<^verbatim>\<open>uuidv4()\<close> call returns, and the string \<^verbatim>\<open>getTimestamp()\<close> returns.
\<close>

record format_env =
  store :: "(string \<rightharpoonup> string) option"
  uuid :: string
  timestamp :: string

text \<open>\<^verbatim>\<open>asyncLocalStorage.getStore()?.get('traceId') || uuidv4()\<close>\<close>

definition current_traceId :: "format_env \<Rightarrow> string" where
  "current_traceId env =
     (case store env of
        None \<Rightarrow> uuid env
      | Some m \<Rightarrow>
          (case m ''traceId'' of
             None \<Rightarrow> uuid env
           | Some t \<Rightarrow> if t \<noteq> [] then t else uuid env))"

text \<open>The store \<^verbatim>\<open>httpLogger\<close> runs a request in, from the identifier it drew.\<close>

definition httpLogger_store :: "string \<Rightarrow> (string \<rightharpoonup> string) option" where
  "httpLogger_store traceId = Some (Map.empty(''traceId'' \<mapsto> traceId))"

definition stringify_metadata :: "(string \<times> json) list option \<Rightarrow> js_error + string" where
  "stringify_metadata md = (case md of None \<Rightarrow> Inr ''{}'' | Some fs \<Rightarrow> stringify (JObj fs))"

definition levelColor_of ::
  "level \<Rightarrow> string option \<Rightarrow> (level \<rightharpoonup> string) option \<Rightarrow> string" where
  "levelColor_of l custom customLevelColors =
     (if truthy custom then getColorCode (the custom)
      else case customLevelColors of
             None \<Rightarrow> DefaultLevelColors l
           | Some clc \<Rightarrow> if truthy (clc l) then getColorCode (the (clc l))
                         else DefaultLevelColors l)"

definition newline :: char where
  "newline = CHR 0x0A"

definition formatLog ::
  "format_env \<Rightarrow> level \<Rightarrow> string \<Rightarrow> log_options \<Rightarrow> bool \<Rightarrow> (level \<rightharpoonup> string) option
     \<Rightarrow> js_error + string" where
  "formatLog env l msg opts useColors customLevelColors =
     (let traceId = current_traceId env in
      case stringify_metadata (metadata opts) of
        Inl e \<Rightarrow> Inl e
      | Inr md \<Rightarrow>
          let levelColor = levelColor_of l (customColor opts) customLevelColors;
              resetColor = Colors_reset;
              dimColor = (if useColors then Colors_dim else []);
              brightColor = (if useColors then Colors_bright else []);
              fullColor = color_of (fullLogColor opts);
              msgColor = color_of (logColor opts);
              output =
                fullColor @ brightColor @ timestamp env @ '':'' @ resetColor @ '' '' @
                levelColor @ level_name l @ resetColor @ '': '' @
                fullColor @ msgColor @ msg @ resetColor @ [newline] @
                fullColor @ dimColor @ ''Trace Id: '' @ traceId @ resetColor @ [newline] @
                fullColor @ dimColor @ ''Function Name: '' @ functionName opts @ resetColor @
                [newline] @
                fullColor @ dimColor @ ''Metadata: '' @ md @ resetColor
          in case error opts of
               None \<Rightarrow> Inr output
             | Some err \<Rightarrow>
                 if truthy (stack err)
                 then Inr (output @ [newline] @ fullColor @
                           (if useColors then Colors_red else []) @
                           ''Error Stack: '' @ the (stack err) @ resetColor)
                 else Inr output)"

subsection \<open>CustomLogger\<close>

record logger_config =
  logLevel :: level
  useColors :: bool
  customLevelColors :: "level \<rightharpoonup> string"
  fileTransport :: bool
  circuitBreakerOptions :: cb_options

text \<open>
  The state of a logger and of its sinks: the circuit breaker, the calls made
  to \<^verbatim>\<open>console.log\<close>, \<^verbatim>\<open>console.warn\<close> and \<^verbatim>\<open>console.error\<close> (level, prefix
  and formatted text), and the strings handed to \<^verbatim>\<open>fileTransport.write\<close>.
\<close>

record logger_state =
  circuitBreaker :: cb_state
  console :: "(level \<times> string \<times> string) list"
  fileWrites :: "string list"

text \<open>
  What one \<^verbatim>\<open>log\<close> call reads from its surroundings, in the order it reads
  them: the clock in \<^verbatim>\<open>isEnabled\<close>, the identifier and time stamp of the first
  \<^verbatim>\<open>formatLog\<close>, the console time stamp and the process id, the identifier
  and time stamp of the second \<^verbatim>\<open>formatLog\<close>, and the clock in
  \<^verbatim>\<open>incrementErrorCount\<close>.  The store is the same throughout the call.
\<close>

record log_env =
  scope :: "(string \<rightharpoonup> string) option"
  now_isEnabled :: int
  uuid_console :: string
  timestamp_console :: string
  consoleTimestamp :: string
  pid :: string
  uuid_file :: string
  timestamp_file :: string
  now_increment :: int

definition logLevels_indexOf :: "level \<Rightarrow> int" where
  "logLevels_indexOf l = (case l of Debug \<Rightarrow> 0 | Info \<Rightarrow> 1 | Warn \<Rightarrow> 2 | Error \<Rightarrow> 3)"

definition shouldLog :: "logger_config \<Rightarrow> level \<Rightarrow> bool" where
  "shouldLog cfg l = (logLevels_indexOf l \<ge> logLevels_indexOf (logLevel cfg))"

definition console_prefix ::
  "logger_config \<Rightarrow> log_env \<Rightarrow> level \<Rightarrow> log_options \<Rightarrow> string" where
  "console_prefix cfg env l opts =
     (let levelColor = levelColor_of l (customColor opts) (Some (customLevelColors cfg));
          resetColor = Colors_reset;
          pidColor = (if useColors cfg then Colors_blue else []);
          bracketColor = (if useColors cfg then Colors_dim else []);
          fullLogPrefixColor = color_of (fullLogColor opts)
      in fullLogPrefixColor @ bracketColor @ ''['' @ consoleTimestamp env @ '']'' @ resetColor @
         '' '' @ levelColor @ level_upper l @ resetColor @ '' '' @
         fullLogPrefixColor @ bracketColor @ ''('' @ pidColor @ pid env @ bracketColor @
         ''):'' @ resetColor)"

definition writeToConsole ::
  "logger_config \<Rightarrow> log_env \<Rightarrow> level \<Rightarrow> string \<Rightarrow> log_options \<Rightarrow> logger_state \<Rightarrow> logger_state" where
  "writeToConsole cfg env l formattedLog opts s =
     s\<lparr>console := console s @ [(l, console_prefix cfg env l opts, formattedLog)]\<rparr>"

text \<open>
  \<^verbatim>\<open>CustomLogger.log\<close>.  The result is the exception the call is left by, if
  any, and the state it leaves behind.
\<close>

definition log ::
  "logger_config \<Rightarrow> log_env \<Rightarrow> level \<Rightarrow> string \<Rightarrow> log_options \<Rightarrow> logger_state
     \<Rightarrow> js_error option \<times> logger_state" where
  "log cfg env l msg opts s =
     (if \<not> shouldLog cfg l then (None, s)
      else
        let (en, cb) = (if l = Error
                        then isEnabled (circuitBreakerOptions cfg) (now_isEnabled env)
                               (circuitBreaker s)
                        else (True, circuitBreaker s));
            s1 = s\<lparr>circuitBreaker := cb\<rparr>
        in if l = Error \<and> \<not> en then (None, s1)
           else
             case formatLog \<lparr>store = scope env, uuid = uuid_console env,
                              timestamp = timestamp_console env\<rparr>
                    l msg opts (useColors cfg) (Some (customLevelColors cfg)) of
               Inl e \<Rightarrow> (Some e, s1)
             | Inr formattedLog \<Rightarrow>
                 let s2 = writeToConsole cfg env l formattedLog opts s1 in
                 case (if fileTransport cfg
                       then (case formatLog \<lparr>store = scope env, uuid = uuid_file env,
                                               timestamp = timestamp_file env\<rparr>
                                     l msg opts False None of
                               Inl e \<Rightarrow> Inl e
                             | Inr fileLog \<Rightarrow>
                                 Inr (s2\<lparr>fileWrites := fileWrites s2 @ [removeColors fileLog]\<rparr>))
                       else Inr s2) of
                   Inl e \<Rightarrow> (Some e, s2)
                 | Inr s3 \<Rightarrow>
                     if l = Error
                     then (None, s3\<lparr>circuitBreaker :=
                                   incrementErrorCount (circuitBreakerOptions cfg)
                                     (now_increment env) (circuitBreaker s3)\<rparr>)
                     else (None, s3))"


section \<open>Properties of the circuit breaker\<close>

lemma failures_append:
  "failures opts (ts @ us) s = failures opts us (failures opts ts s)"
  by (induction ts arbitrary: s) simp_all

lemma within_window_append:
  "within_window opts prev (ts @ us) =
     (within_window opts prev ts \<and> within_window opts (last (prev # ts)) us)"
  by (induction ts arbitrary: prev) simp_all

lemma failures_open_noop: "isOpen s \<Longrightarrow> failures opts ts s = s"
  by (induction ts) (simp_all add: incrementErrorCount_def)

lemma failures_below_threshold:
  "\<not> isOpen s \<Longrightarrow> within_window opts (lastResetTime s) ts \<Longrightarrow>
   errorCount s + int (length ts) < circuitBreakerCount opts \<Longrightarrow>
   \<not> isOpen (failures opts ts s) \<and>
   errorCount (failures opts ts s) = errorCount s + int (length ts) \<and>
   lastResetTime (failures opts ts s) = last (lastResetTime s # ts) \<and>
   callbackCalls (failures opts ts s) = callbackCalls s"
proof (induction ts arbitrary: s)
  case Nil
  then show ?case by simp
next
  case (Cons t ts)
  let ?s1 = "incrementErrorCount opts t s"
  from Cons.prems have step:
    "\<not> isOpen ?s1" "errorCount ?s1 = errorCount s + 1" "lastResetTime ?s1 = t"
    "callbackCalls ?s1 = callbackCalls s"
    by (simp_all add: incrementErrorCount_def Let_def)
  from Cons.prems step have
    "within_window opts (lastResetTime ?s1) ts"
    "errorCount ?s1 + int (length ts) < circuitBreakerCount opts"
    by simp_all
  from Cons.IH[OF step(1) this] step show ?case by simp
qed

lemma callback_once_per_trip:
  "\<not> isOpen s \<Longrightarrow>
   callbackCalls (failures opts ts s) =
     callbackCalls s + (if isOpen (failures opts ts s) then 1 else 0)"
proof (induction ts arbitrary: s)
  case Nil
  then show ?case by simp
next
  case (Cons t ts)
  show ?case
  proof (cases "isOpen (incrementErrorCount opts t s)")
    case True
    with Cons.prems have "callbackCalls (incrementErrorCount opts t s) = Suc (callbackCalls s)"
      by (simp add: incrementErrorCount_def Let_def split: if_splits)
    with True show ?thesis by (simp add: failures_open_noop)
  next
    case False
    with Cons.prems have "callbackCalls (incrementErrorCount opts t s) = callbackCalls s"
      by (simp add: incrementErrorCount_def Let_def split: if_splits)
    with Cons.IH[OF False] show ?thesis by simp
  qed
qed

text \<open>
  Claim C1.  Start from a freshly constructed breaker (created at time \<open>t0\<close>) with
  threshold \<open>T\<close>, window \<open>W\<close> and cooldown \<open>C\<close>, and record failures at the times
  \<open>ts\<close>, all within the window.  If fewer than \<open>T\<close> failures were recorded,
  \<^verbatim>\<open>isEnabled()\<close> returns true (and changes nothing).  If exactly \<open>T\<close> were recorded,
  the breaker is open, and \<^verbatim>\<open>isEnabled()\<close> returns false and changes nothing while
  less than \<open>C\<close> has passed since the last failure (the moment the breaker
  opened); once \<open>C\<close> has passed, a single \<^verbatim>\<open>isEnabled()\<close> call returns true,
  closes the breaker and resets \<open>errorCount\<close> to 0.
\<close>

theorem breaker_threshold_cooldown:
  assumes win: "within_window opts t0 ts"
    and s: "s = failures opts ts (new_breaker t0)"
  shows "(int (length ts) < circuitBreakerCount opts \<longrightarrow>
            isEnabled opts now s = (True, s)) \<and>
         (int (length ts) = circuitBreakerCount opts \<and> ts \<noteq> [] \<longrightarrow>
            isOpen s \<and>
            (now - last ts < circuitBreakerCooldown opts \<longrightarrow>
               isEnabled opts now s = (False, s)) \<and>
            (now - last ts \<ge> circuitBreakerCooldown opts \<longrightarrow>
               isEnabled opts now s = (True, s\<lparr>isOpen := False, errorCount := 0\<rparr>)))"
proof -
  have below: "isEnabled opts now s = (True, s)"
    if lt: "int (length ts) < circuitBreakerCount opts"
  proof -
    have "\<not> isOpen (failures opts ts (new_breaker t0))"
      using failures_below_threshold[of "new_breaker t0" opts ts] win lt
      by (simp add: new_breaker_def)
    then show ?thesis by (simp add: s isEnabled_def)
  qed
  have tripped: "isOpen s \<and> lastResetTime s = last ts"
    if eq: "int (length ts) = circuitBreakerCount opts \<and> ts \<noteq> []"
  proof -
    from eq obtain us t where ts: "ts = us @ [t]"
      by (metis rev_exhaust)
    let ?m = "failures opts us (new_breaker t0)"
    from win ts have wu: "within_window opts t0 us"
      and wt: "\<not> t - last (t0 # us) > circuitBreakerTime opts"
      by (simp_all add: within_window_append)
    from eq ts have cnt: "int (length us) + 1 = circuitBreakerCount opts" by simp
    have mid: "\<not> isOpen ?m" "errorCount ?m = int (length us)"
      "lastResetTime ?m = last (t0 # us)"
      using failures_below_threshold[of "new_breaker t0" opts us] wu cnt
      by (simp_all add: new_breaker_def)
    have s_eq: "s = incrementErrorCount opts t ?m"
      by (simp add: s ts failures_append)
    from mid wt cnt show ?thesis
      by (simp add: s_eq ts incrementErrorCount_def Let_def)
  qed
  show ?thesis
    using below tripped by (simp add: isEnabled_def)
qed

theorem breaker_threshold_cooldown_witness:
  "within_window \<lparr>circuitBreakerCount = 3, circuitBreakerTime = 1000, circuitBreakerCooldown = 2000\<rparr>
     0 [100, 200, 300] \<and>
   isEnabled \<lparr>circuitBreakerCount = 3, circuitBreakerTime = 1000, circuitBreakerCooldown = 2000\<rparr> 400
     (failures \<lparr>circuitBreakerCount = 3, circuitBreakerTime = 1000, circuitBreakerCooldown = 2000\<rparr>
        [100, 200] (new_breaker 0))
   = (True, \<lparr>errorCount = 2, lastResetTime = 200, isOpen = False, callbackCalls = 0\<rparr>) \<and>
   isEnabled \<lparr>circuitBreakerCount = 3, circuitBreakerTime = 1000, circuitBreakerCooldown = 2000\<rparr> 400
     (failures \<lparr>circuitBreakerCount = 3, circuitBreakerTime = 1000, circuitBreakerCooldown = 2000\<rparr>
        [100, 200, 300] (new_breaker 0))
   = (False, \<lparr>errorCount = 3, lastResetTime = 300, isOpen = True, callbackCalls = 1\<rparr>) \<and>
   isEnabled \<lparr>circuitBreakerCount = 3, circuitBreakerTime = 1000, circuitBreakerCooldown = 2000\<rparr> 2400
     (failures \<lparr>circuitBreakerCount = 3, circuitBreakerTime = 1000, circuitBreakerCooldown = 2000\<rparr>
        [100, 200, 300] (new_breaker 0))
   = (True, \<lparr>errorCount = 0, lastResetTime = 300, isOpen = False, callbackCalls = 1\<rparr>)"
proof -
  let ?o = "\<lparr>circuitBreakerCount = 3, circuitBreakerTime = 1000, circuitBreakerCooldown = 2000\<rparr>"
  have w2: "within_window ?o 0 [100, 200]" and w3: "within_window ?o 0 [100, 200, 300]"
    by simp_all
  have v2: "failures ?o [100, 200] (new_breaker 0)
      = \<lparr>errorCount = 2, lastResetTime = 200, isOpen = False, callbackCalls = 0\<rparr>"
    and v3: "failures ?o [100, 200, 300] (new_breaker 0)
      = \<lparr>errorCount = 3, lastResetTime = 300, isOpen = True, callbackCalls = 1\<rparr>"
    by (simp_all add: incrementErrorCount_def new_breaker_def Let_def)
  note a = breaker_threshold_cooldown[OF w2 refl, of 400, unfolded v2]
    and b = breaker_threshold_cooldown[OF w3 refl, of 400, unfolded v3]
    and c = breaker_threshold_cooldown[OF w3 refl, of 2400, unfolded v3]
  from a have "isEnabled ?o 400 \<lparr>errorCount = 2, lastResetTime = 200, isOpen = False, callbackCalls = 0\<rparr>
      = (True, \<lparr>errorCount = 2, lastResetTime = 200, isOpen = False, callbackCalls = 0\<rparr>)"
    by simp
  moreover from b have "isEnabled ?o 400 \<lparr>errorCount = 3, lastResetTime = 300, isOpen = True, callbackCalls = 1\<rparr>
      = (False, \<lparr>errorCount = 3, lastResetTime = 300, isOpen = True, callbackCalls = 1\<rparr>)"
    by simp
  moreover from c have "isEnabled ?o 2400 \<lparr>errorCount = 3, lastResetTime = 300, isOpen = True, callbackCalls = 1\<rparr>
      = (True, \<lparr>errorCount = 0, lastResetTime = 300, isOpen = False, callbackCalls = 1\<rparr>)"
    by simp
  ultimately show ?thesis
    unfolding v2 v3 using w3 by blast
qed

text \<open>
  Claim C4.  \<^verbatim>\<open>incrementErrorCount()\<close> changes nothing on an open breaker.  On a
  closed one it sets \<open>errorCount\<close> to exactly 1 when more than the window has passed
  since \<open>lastResetTime\<close> and increments it otherwise, sets \<open>lastResetTime\<close> (which
  also serves as the opening time) to the current time in both branches, and
  opens the breaker and invokes the callback once exactly when the new count
  has reached the threshold.  Over any run of failures from a closed breaker
  the callback is invoked once if the run tripped the breaker and not at all
  otherwise.
\<close>

theorem incrementErrorCount_cases:
  "(isOpen s \<longrightarrow> incrementErrorCount opts now s = s) \<and>
   (\<not> isOpen s \<longrightarrow>
      errorCount (incrementErrorCount opts now s) =
        (if now - lastResetTime s > circuitBreakerTime opts then 1 else errorCount s + 1) \<and>
      lastResetTime (incrementErrorCount opts now s) = now \<and>
      isOpen (incrementErrorCount opts now s) =
        (errorCount (incrementErrorCount opts now s) \<ge> circuitBreakerCount opts) \<and>
      callbackCalls (incrementErrorCount opts now s) =
        callbackCalls s +
          (if errorCount (incrementErrorCount opts now s) \<ge> circuitBreakerCount opts
           then 1 else 0) \<and>
      callbackCalls (failures opts ts s) =
        callbackCalls s + (if isOpen (failures opts ts s) then 1 else 0))"
proof (intro conjI impI)
  assume "isOpen s"
  then show "incrementErrorCount opts now s = s"
    by (simp add: incrementErrorCount_def)
next
  assume c: "\<not> isOpen s"
  then show "errorCount (incrementErrorCount opts now s) =
      (if now - lastResetTime s > circuitBreakerTime opts then 1 else errorCount s + 1)"
    by (simp add: incrementErrorCount_def Let_def)
  from c show "lastResetTime (incrementErrorCount opts now s) = now"
    by (simp add: incrementErrorCount_def Let_def)
  from c show "isOpen (incrementErrorCount opts now s) =
      (errorCount (incrementErrorCount opts now s) \<ge> circuitBreakerCount opts)"
    by (simp add: incrementErrorCount_def Let_def)
  from c show "callbackCalls (incrementErrorCount opts now s) =
      callbackCalls s +
        (if errorCount (incrementErrorCount opts now s) \<ge> circuitBreakerCount opts
         then 1 else 0)"
    by (simp add: incrementErrorCount_def Let_def)
  from c show "callbackCalls (failures opts ts s) =
      callbackCalls s + (if isOpen (failures opts ts s) then 1 else 0)"
    by (rule callback_once_per_trip)
qed

theorem incrementErrorCount_cases_witness:
  "incrementErrorCount \<lparr>circuitBreakerCount = 3, circuitBreakerTime = 1000, circuitBreakerCooldown = 2000\<rparr>
     5000 \<lparr>errorCount = 3, lastResetTime = 300, isOpen = True, callbackCalls = 1\<rparr>
   = \<lparr>errorCount = 3, lastResetTime = 300, isOpen = True, callbackCalls = 1\<rparr> \<and>
   errorCount (incrementErrorCount
     \<lparr>circuitBreakerCount = 3, circuitBreakerTime = 1000, circuitBreakerCooldown = 2000\<rparr>
     1201 \<lparr>errorCount = 2, lastResetTime = 200, isOpen = False, callbackCalls = 0\<rparr>) = 1 \<and>
   errorCount (incrementErrorCount
     \<lparr>circuitBreakerCount = 3, circuitBreakerTime = 1000, circuitBreakerCooldown = 2000\<rparr>
     1200 \<lparr>errorCount = 2, lastResetTime = 200, isOpen = False, callbackCalls = 0\<rparr>) = 3 \<and>
   callbackCalls (failures
     \<lparr>circuitBreakerCount = 3, circuitBreakerTime = 1000, circuitBreakerCooldown = 2000\<rparr>
     [1200, 1300, 1400] \<lparr>errorCount = 2, lastResetTime = 200, isOpen = False, callbackCalls = 0\<rparr>) = 1"
proof -
  let ?o = "\<lparr>circuitBreakerCount = 3, circuitBreakerTime = 1000, circuitBreakerCooldown = 2000\<rparr>"
  let ?open = "\<lparr>errorCount = 3, lastResetTime = 300, isOpen = True, callbackCalls = 1\<rparr>"
  let ?closed = "\<lparr>errorCount = 2, lastResetTime = 200, isOpen = False, callbackCalls = 0\<rparr>"
  have tripped: "isOpen (failures ?o [1200, 1300, 1400] ?closed)"
    by (simp add: incrementErrorCount_def Let_def)
  from incrementErrorCount_cases[of ?open ?o 5000 "[]"]
  have a: "incrementErrorCount ?o 5000 ?open = ?open" by simp
  from incrementErrorCount_cases[of ?closed ?o 1201 "[]"]
  have b: "errorCount (incrementErrorCount ?o 1201 ?closed) = 1" by simp
  from incrementErrorCount_cases[of ?closed ?o 1200 "[1200, 1300, 1400]"]
  have c: "errorCount (incrementErrorCount ?o 1200 ?closed) = 3"
    and d: "callbackCalls (failures ?o [1200, 1300, 1400] ?closed)
              = 0 + (if isOpen (failures ?o [1200, 1300, 1400] ?closed) then 1 else 0)"
    by simp_all
  from d tripped have "callbackCalls (failures ?o [1200, 1300, 1400] ?closed) = 1"
    by simp
  with a b c show ?thesis by blast
qed


section \<open>Properties of parseSize\<close>

lemma toLowerCase_unit_digit: "digit_unit (toLowerCase_unit c) = digit_unit c"
  by (simp add: toLowerCase_unit_def digit_unit_def)

lemma toLowerCase_unit_space: "space_unit (toLowerCase_unit c) = space_unit c"
  by (simp add: toLowerCase_unit_def space_unit_def)

lemma toLowerCase_unit_dot: "(toLowerCase_unit c = 0x2E) = (c = 0x2E)"
  by (simp add: toLowerCase_unit_def)

lemma toLowerCase_unit_unit: "unit_unit (toLowerCase_unit c) = unit_letter c"
  by (auto simp: toLowerCase_unit_def unit_unit_def unit_letter_def)

lemma toLowerCase_unit_digit_id: "digit_unit c \<Longrightarrow> toLowerCase_unit c = c"
  by (simp add: toLowerCase_unit_def digit_unit_def)

lemma toLowerCase_unit_space_id: "space_unit c \<Longrightarrow> toLowerCase_unit c = c"
  by (auto simp: toLowerCase_unit_def space_unit_def)

lemma space_not_digit: "space_unit c \<Longrightarrow> \<not> digit_unit c"
  by (auto simp: space_unit_def digit_unit_def)

lemma space_not_dot: "space_unit c \<Longrightarrow> c \<noteq> 0x2E"
  by (auto simp: space_unit_def)

lemma unit_not_digit: "unit_unit c \<Longrightarrow> \<not> digit_unit c"
  by (auto simp: unit_unit_def digit_unit_def)

lemma unit_not_space: "unit_unit c \<Longrightarrow> \<not> space_unit c"
  by (auto simp: unit_unit_def space_unit_def)

lemma unit_not_dot: "unit_unit c \<Longrightarrow> c \<noteq> 0x2E"
  by (auto simp: unit_unit_def)

lemma dot_not_digit: "\<not> digit_unit 0x2E"
  by (simp add: digit_unit_def)

lemma toLowerCase_digits: "list_all digit_unit xs \<Longrightarrow> toLowerCase xs = xs"
  by (induction xs) (simp_all add: toLowerCase_def toLowerCase_unit_digit_id)

lemma toLowerCase_spaces: "list_all space_unit xs \<Longrightarrow> toLowerCase xs = xs"
  by (induction xs) (simp_all add: toLowerCase_def toLowerCase_unit_space_id)

lemma toLowerCase_append: "toLowerCase (xs @ ys) = toLowerCase xs @ toLowerCase ys"
  by (simp add: toLowerCase_def)

lemma takeWhile_all_then:
  "list_all P xs \<Longrightarrow> ys = [] \<or> \<not> P (hd ys) \<Longrightarrow> takeWhile P (xs @ ys) = xs"
proof (induction xs)
  case Nil
  then show ?case by (cases ys) auto
next
  case (Cons x xs)
  then show ?case by simp
qed

lemma dropWhile_all_then:
  "list_all P xs \<Longrightarrow> ys = [] \<or> \<not> P (hd ys) \<Longrightarrow> dropWhile P (xs @ ys) = ys"
proof (induction xs)
  case Nil
  then show ?case by (cases ys) auto
next
  case (Cons x xs)
  then show ?case by simp
qed

text \<open>The matcher on a lower-case string of the accepted form.\<close>

lemma match_size_accepts:
  assumes ip: "ip \<noteq> []" "list_all digit_unit ip"
    and fp: "list_all digit_unit fp"
    and ws: "list_all space_unit ws"
    and u: "case u of None \<Rightarrow> True | Some c \<Rightarrow> unit_unit c"
  shows "match_size (size_spec_string ip fp ws u) = Some (number_text ip fp, u)"
proof -
  let ?unit = "case u of None \<Rightarrow> [] | Some c \<Rightarrow> [c]"
  let ?frac = "if fp = [] then [] else 0x2E # fp"
  let ?r2 = "ws @ ?unit"
  let ?r1 = "?frac @ ?r2"
  have unit_hd: "?unit = [] \<or> (\<not> digit_unit (hd ?unit) \<and> \<not> space_unit (hd ?unit) \<and> hd ?unit \<noteq> 0x2E)"
    using u by (cases u) (auto simp: unit_not_digit unit_not_space unit_not_dot)
  have r2_hd: "?r2 = [] \<or> (\<not> digit_unit (hd ?r2) \<and> hd ?r2 \<noteq> 0x2E)"
  proof (cases ws)
    case Nil
    with unit_hd show ?thesis by auto
  next
    case (Cons w ws')
    with ws have "space_unit w" by simp
    then have "\<not> digit_unit w" "w \<noteq> 0x2E"
      by (auto simp: space_not_digit space_not_dot)
    with Cons show ?thesis by simp
  qed
  have r1_hd: "?r1 = [] \<or> \<not> digit_unit (hd ?r1)"
    using r2_hd by (auto simp: dot_not_digit)
  have tk: "takeWhile digit_unit (ip @ ?r1) = ip" and dr: "dropWhile digit_unit (ip @ ?r1) = ?r1"
    using takeWhile_all_then[OF ip(2) r1_hd] dropWhile_all_then[OF ip(2) r1_hd] by simp_all
  have frac: "(case ?r1 of
                 c # r \<Rightarrow>
                   if c = 0x2E \<and> takeWhile digit_unit r \<noteq> []
                   then (0x2E # takeWhile digit_unit r, dropWhile digit_unit r)
                   else ([], ?r1)
               | [] \<Rightarrow> ([], ?r1)) = (?frac, ?r2)"
  proof (cases "fp = []")
    case True
    then show ?thesis using r2_hd by (cases ?r2) auto
  next
    case False
    have r2_hd': "?r2 = [] \<or> \<not> digit_unit (hd ?r2)" using r2_hd by blast
    from False show ?thesis
      using takeWhile_all_then[OF fp r2_hd'] dropWhile_all_then[OF fp r2_hd'] by simp
  qed
  have sp: "dropWhile space_unit ?r2 = ?unit"
    using dropWhile_all_then[OF ws, of ?unit] unit_hd by blast
  have fin: "(case ?unit of
             [] \<Rightarrow> Some (ip @ ?frac, None)
           | [c] \<Rightarrow> if unit_unit c then Some (ip @ ?frac, Some c) else None
           | _ \<Rightarrow> None) = Some (number_text ip fp, u)"
    using u by (cases u) (auto simp: number_text_def)
  have "size_spec_string ip fp ws u = ip @ ?r1"
    by (simp add: size_spec_string_def number_text_def)
  then show ?thesis
    by (simp only: match_size_def Let_def tk dr frac ip(1) if_False prod.case sp fin)
qed

lemma toLowerCase_size_spec:
  assumes "size_spec_parts ip fp ws u"
  shows "toLowerCase (size_spec_string ip fp ws u) =
         size_spec_string ip fp ws (map_option toLowerCase_unit u)"
proof -
  from assms have "toLowerCase ip = ip" "toLowerCase fp = fp" "toLowerCase ws = ws"
    by (simp_all add: size_spec_parts_def toLowerCase_digits toLowerCase_spaces)
  moreover have "toLowerCase (0x2E # fp) = 0x2E # toLowerCase fp"
    by (simp add: toLowerCase_def toLowerCase_unit_def)
  moreover have "toLowerCase (case u of None \<Rightarrow> [] | Some c \<Rightarrow> [c]) =
      (case map_option toLowerCase_unit u of None \<Rightarrow> [] | Some c \<Rightarrow> [c])"
    by (cases u) (simp_all add: toLowerCase_def)
  moreover have "toLowerCase [] = []"
    by (simp add: toLowerCase_def)
  ultimately show ?thesis
    by (simp add: size_spec_string_def number_text_def toLowerCase_append)
qed

text \<open>\<^verbatim>\<open>parseFloat\<close> on the text of the first group.\<close>

lemma parseFloat_number_text:
  assumes ip: "list_all digit_unit ip" and fp: "list_all digit_unit fp"
  shows "parseFloat (number_text ip fp) = to_double (digits_val (ip @ fp)) (10 ^ length fp)"
proof -
  let ?frac = "if fp = [] then [] else 0x2E # fp"
  have hd: "?frac = [] \<or> \<not> digit_unit (hd ?frac)"
    by (simp add: dot_not_digit)
  have tk: "takeWhile digit_unit (ip @ ?frac) = ip" and dr: "dropWhile digit_unit (ip @ ?frac) = ?frac"
    using takeWhile_all_then[OF ip hd] dropWhile_all_then[OF ip hd] by simp_all
  have fr: "(case ?frac of c # r \<Rightarrow> if c = 0x2E then takeWhile digit_unit r else [] | [] \<Rightarrow> []) = fp"
    using takeWhile_all_then[OF fp, of "[]"] by (cases "fp = []") simp_all
  show ?thesis
    by (simp only: parseFloat_def number_text_def Let_def tk dr fr)
qed

lemma parseSize_accepts:
  assumes "size_spec_parts ip fp ws u"
  shows "parseSize (size_spec_string ip fp ws u) =
         Math_floor (double_times (to_double (digits_val (ip @ fp)) (10 ^ length fp))
                       (unit_multiple u))"
proof -
  have u': "case map_option toLowerCase_unit u of None \<Rightarrow> True | Some c \<Rightarrow> unit_unit c"
  proof (cases u)
    case None
    then show ?thesis by simp
  next
    case (Some c)
    with assms have "unit_letter c" by (simp add: size_spec_parts_def)
    then have "unit_unit (toLowerCase_unit c)" by (simp only: toLowerCase_unit_unit)
    with Some show ?thesis by simp
  qed
  from assms have "match_size (toLowerCase (size_spec_string ip fp ws u)) =
      Some (number_text ip fp, map_option toLowerCase_unit u)"
    using match_size_accepts[OF _ _ _ _ u', of ip fp ws]
    by (simp add: toLowerCase_size_spec size_spec_parts_def)
  moreover from assms have
    "parseFloat (number_text ip fp) = to_double (digits_val (ip @ fp)) (10 ^ length fp)"
    by (simp add: parseFloat_number_text size_spec_parts_def)
  ultimately show ?thesis
    by (cases u) (simp_all add: parseSize_def unit_multiple_def units_def)
qed

text \<open>Whatever the matcher accepts has the accepted form.\<close>

lemma match_size_form:
  assumes "match_size t = Some (num, u)"
  shows "\<exists>ip fp ws. num = number_text ip fp \<and> t = size_spec_string ip fp ws u \<and> ip \<noteq> [] \<and>
           list_all digit_unit ip \<and> list_all digit_unit fp \<and> list_all space_unit ws \<and>
           (case u of None \<Rightarrow> True | Some c \<Rightarrow> unit_unit c)"
proof -
  define r1 where "r1 = dropWhile digit_unit t"
  define fp where "fp = (case r1 of
                 c # r \<Rightarrow> if c = 0x2E then takeWhile digit_unit r else []
               | [] \<Rightarrow> [])"
  define pr where "pr = (case r1 of
                 c # r \<Rightarrow>
                   if c = 0x2E \<and> takeWhile digit_unit r \<noteq> []
                   then (0x2E # takeWhile digit_unit r, dropWhile digit_unit r)
                   else ([], r1)
               | [] \<Rightarrow> ([], r1))"
  define r3 where "r3 = dropWhile space_unit (snd pr)"
  from assms have nonempty: "takeWhile digit_unit t \<noteq> []"
    by (auto simp: match_size_def Let_def split: if_splits)
  then have "match_size t = (case r3 of
             [] \<Rightarrow> Some (takeWhile digit_unit t @ fst pr, None)
           | [c] \<Rightarrow> if unit_unit c then Some (takeWhile digit_unit t @ fst pr, Some c) else None
           | _ \<Rightarrow> None)"
    unfolding match_size_def Let_def r3_def pr_def r1_def by (simp add: split_beta)
  with assms have fin: "(case r3 of
             [] \<Rightarrow> Some (takeWhile digit_unit t @ fst pr, None)
           | [c] \<Rightarrow> if unit_unit c then Some (takeWhile digit_unit t @ fst pr, Some c) else None
           | _ \<Rightarrow> None) = Some (num, u)"
    by simp
  then have num: "num = takeWhile digit_unit t @ fst pr"
    and unit: "r3 = (case u of None \<Rightarrow> [] | Some c \<Rightarrow> [c])"
    and uok: "case u of None \<Rightarrow> True | Some c \<Rightarrow> unit_unit c"
    by (auto split: list.splits if_splits)
  have frac: "fst pr = (if fp = [] then [] else 0x2E # fp)"
    unfolding fp_def pr_def by (cases r1) auto
  have t: "t = takeWhile digit_unit t @ r1"
    by (simp add: r1_def)
  have r1: "r1 = fst pr @ snd pr"
    unfolding pr_def by (cases r1) auto
  have r2: "snd pr = takeWhile space_unit (snd pr) @ r3"
    by (simp add: r3_def)
  have digs: "list_all digit_unit (takeWhile digit_unit t)" "list_all digit_unit fp"
    unfolding fp_def
    by (auto simp: list_all_iff split: list.splits dest: set_takeWhileD)
  have sps: "list_all space_unit (takeWhile space_unit (snd pr))"
    by (auto simp: list_all_iff dest: set_takeWhileD)
  have "num = number_text (takeWhile digit_unit t) fp"
    using num frac by (simp add: number_text_def)
  moreover have "t = size_spec_string (takeWhile digit_unit t) fp (takeWhile space_unit (snd pr)) u"
    using t r1 r2 unit frac by (simp add: size_spec_string_def number_text_def)
  ultimately show ?thesis
    using nonempty digs sps uok by blast
qed

lemma map_lower_digits:
  "map toLowerCase_unit xs = ds \<Longrightarrow> list_all digit_unit ds \<Longrightarrow> xs = ds"
  by (induction xs arbitrary: ds)
     (auto simp: toLowerCase_unit_digit toLowerCase_unit_digit_id)

lemma map_lower_spaces:
  "map toLowerCase_unit xs = ws \<Longrightarrow> list_all space_unit ws \<Longrightarrow> xs = ws"
  by (induction xs arbitrary: ws)
     (auto simp: toLowerCase_unit_space toLowerCase_unit_space_id)

lemma map_eq_appendD:
  assumes "map f xs = ys @ zs"
  shows "\<exists>us vs. xs = us @ vs \<and> map f us = ys \<and> map f vs = zs"
proof (intro exI conjI)
  show "xs = take (length ys) xs @ drop (length ys) xs" by simp
  from assms have "take (length ys) (map f xs) = ys" "drop (length ys) (map f xs) = zs"
    by simp_all
  then show "map f (take (length ys) xs) = ys" "map f (drop (length ys) xs) = zs"
    by (simp_all add: take_map drop_map)
qed

lemma lower_size_spec_form:
  assumes low: "toLowerCase s = size_spec_string ip fp ws u'"
    and ip: "ip \<noteq> []" "list_all digit_unit ip"
    and fp: "list_all digit_unit fp"
    and ws: "list_all space_unit ws"
    and u': "case u' of None \<Rightarrow> True | Some c \<Rightarrow> unit_unit c"
  shows "\<exists>u. size_spec_parts ip fp ws u \<and> s = size_spec_string ip fp ws u"
proof -
  let ?frac = "if fp = [] then [] else 0x2E # fp"
  let ?unit = "case u' of None \<Rightarrow> [] | Some c \<Rightarrow> [c]"
  from low have "map toLowerCase_unit s = ip @ ?frac @ ws @ ?unit"
    by (simp add: toLowerCase_def size_spec_string_def number_text_def)
  then obtain s1 t1 where a1: "s = s1 @ t1"
    and m1: "map toLowerCase_unit s1 = ip"
    and n1: "map toLowerCase_unit t1 = ?frac @ ws @ ?unit"
    by (blast dest: map_eq_appendD)
  from n1 obtain s2 t2 where a2: "t1 = s2 @ t2"
    and m2: "map toLowerCase_unit s2 = ?frac"
    and n2: "map toLowerCase_unit t2 = ws @ ?unit"
    by (blast dest: map_eq_appendD)
  from n2 obtain s3 s4 where a3: "t2 = s3 @ s4"
    and m3: "map toLowerCase_unit s3 = ws"
    and m4: "map toLowerCase_unit s4 = ?unit"
    by (blast dest: map_eq_appendD)
  from a1 a2 a3 have s: "s = s1 @ s2 @ s3 @ s4" by simp
  from m1 ip(2) have s1: "s1 = ip" by (rule map_lower_digits)
  from m3 ws have s3: "s3 = ws" by (rule map_lower_spaces)
  have s2: "s2 = ?frac"
  proof (cases "fp = []")
    case True
    with m2 show ?thesis by simp
  next
    case False
    with m2 obtain c cs where c: "s2 = c # cs" "toLowerCase_unit c = 0x2E"
      "map toLowerCase_unit cs = fp"
      by (auto simp: map_eq_Cons_conv)
    from c(3) fp have "cs = fp" by (rule map_lower_digits)
    with c False show ?thesis by (simp add: toLowerCase_unit_dot)
  qed
  have "\<exists>u. s4 = (case u of None \<Rightarrow> [] | Some c \<Rightarrow> [c]) \<and>
             (case u of None \<Rightarrow> True | Some c \<Rightarrow> unit_letter c)"
  proof (cases u')
    case None
    with m4 have "s4 = []" by simp
    then show ?thesis by (intro exI[of _ None]) simp
  next
    case (Some c')
    with m4 obtain c where c: "s4 = [c]" "toLowerCase_unit c = c'"
      by (auto simp: map_eq_Cons_conv)
    from u' Some c(2) have "unit_unit (toLowerCase_unit c)" by simp
    then have "unit_letter c" by (simp only: toLowerCase_unit_unit)
    with c(1) show ?thesis by (intro exI[of _ "Some c"]) simp
  qed
  then obtain u where u: "s4 = (case u of None \<Rightarrow> [] | Some c \<Rightarrow> [c])"
    "case u of None \<Rightarrow> True | Some c \<Rightarrow> unit_letter c"
    by blast
  have "size_spec_parts ip fp ws u"
    using ip fp ws u(2) by (simp add: size_spec_parts_def)
  moreover have "s = size_spec_string ip fp ws u"
    using s s1 s2 s3 u(1) by (simp add: size_spec_string_def number_text_def)
  ultimately show ?thesis by blast
qed

lemma parseSize_rejects:
  assumes "\<forall>ip fp ws u. size_spec_parts ip fp ws u \<longrightarrow> s \<noteq> size_spec_string ip fp ws u"
  shows "parseSize s = enat 10485760"
proof (cases "match_size (toLowerCase s)")
  case None
  then show ?thesis by (simp add: parseSize_def)
next
  case (Some m)
  obtain num u' where m: "m = (num, u')" by (cases m)
  from match_size_form[OF Some[unfolded m]] obtain ip fp ws where
    "toLowerCase s = size_spec_string ip fp ws u'" "ip \<noteq> []" "list_all digit_unit ip"
    "list_all digit_unit fp" "list_all space_unit ws"
    "case u' of None \<Rightarrow> True | Some c \<Rightarrow> unit_unit c"
    by blast
  from lower_size_spec_form[OF this] assms show ?thesis by blast
qed

lemma unit_multiple_values:
  "unit_multiple None = 1 \<and>
   unit_multiple (Some 0x62) = 1 \<and> unit_multiple (Some 0x42) = 1 \<and>
   unit_multiple (Some 0x6B) = 1024 \<and> unit_multiple (Some 0x4B) = 1024 \<and>
   unit_multiple (Some 0x212A) = 1024 \<and>
   unit_multiple (Some 0x6D) = 1048576 \<and> unit_multiple (Some 0x4D) = 1048576 \<and>
   unit_multiple (Some 0x67) = 1073741824 \<and> unit_multiple (Some 0x47) = 1073741824"
  by (simp add: unit_multiple_def units_def toLowerCase_unit_def)

subsection \<open>Whole numbers are computed exactly\<close>

lemma bitlen_le: "n < 2 ^ k \<Longrightarrow> bitlen n \<le> k"
proof (induction k arbitrary: n)
  case 0
  then show ?case by (simp add: bitlen.simps)
next
  case (Suc k)
  show ?case
  proof (cases "n = 0")
    case True
    then show ?thesis by (simp add: bitlen.simps)
  next
    case False
    from Suc.prems have "n div 2 < 2 ^ k" by simp
    then have "bitlen (n div 2) \<le> k" by (rule Suc.IH)
    with False show ?thesis by (subst bitlen.simps) simp
  qed
qed

lemma bitlen_double: "0 < n \<Longrightarrow> bitlen (2 * n) = Suc (bitlen n)"
  by (subst bitlen.simps) simp

lemma bitlen_mult_pow2: "0 < n \<Longrightarrow> bitlen (n * 2 ^ t) = bitlen n + t"
proof (induction t)
  case 0
  then show ?case by simp
next
  case (Suc t)
  have "n * 2 ^ Suc t = 2 * (n * 2 ^ t)" by simp
  moreover from Suc.prems have "0 < n * 2 ^ t" by simp
  ultimately have "bitlen (n * 2 ^ Suc t) = Suc (bitlen (n * 2 ^ t))"
    by (simp only: bitlen_double)
  with Suc show ?case by simp
qed

lemma bitlen_pow2: "bitlen (2 ^ k) = Suc k"
proof -
  have "bitlen 1 = 1" by (simp add: bitlen.simps)
  with bitlen_mult_pow2[of 1 k] show ?thesis by simp
qed

lemma floor_log2_le: "floor_log2 p q \<le> int (bitlen p) - int (bitlen q)"
  by (simp add: floor_log2_def Let_def)

text \<open>
  A number with a significand below \<open>2 ^ 53\<close>, at least one and far below
  \<open>2 ^ 1024\<close>, is a double: rounding gives the number itself.
\<close>

lemma to_double_dyadic:
  assumes n: "0 < n" "n < 2 ^ 53" and kt: "k \<le> t" "t - k \<le> 900"
  shows "\<exists>m e. to_double (n * 2 ^ t) (2 ^ k) = Finite m e \<and> e \<le> int (t - k) \<and>
           m * 2 ^ nat e = n * 2 ^ (t - k) * 2 ^ nat (- e)"
proof -
  define e where "e = max (floor_log2 (n * 2 ^ t) (2 ^ k) - 52) (- 1074)"
  have "bitlen n \<le> 53" using n(2) by (rule bitlen_le)
  then have "int (bitlen (n * 2 ^ t)) - int (bitlen ((2::nat) ^ k)) \<le> 52 + int (t - k)"
    using n(1) kt(1) by (simp add: bitlen_mult_pow2 bitlen_pow2)
  with floor_log2_le[of "n * 2 ^ t" "2 ^ k"] have e_le: "e \<le> int (t - k)"
    unfolding e_def by simp
  define d where "d = t + nat (- e) - (k + nat e)"
  have kd: "k + nat e \<le> t + nat (- e)"
    using e_le kt(1) by linarith
  have num: "n * 2 ^ t * 2 ^ nat (- e) = (n * 2 ^ d) * (2 ^ k * 2 ^ nat e)"
  proof -
    have "t + nat (- e) = d + (k + nat e)" using kd by (simp add: d_def)
    then have "(2::nat) ^ (t + nat (- e)) = 2 ^ (d + (k + nat e))" by (rule arg_cong)
    then have "(2::nat) ^ t * 2 ^ nat (- e) = 2 ^ d * (2 ^ k * 2 ^ nat e)"
      by (simp only: power_add)
    then show ?thesis by (simp only: mult.assoc)
  qed
  have rnd: "round_half_even (n * 2 ^ t * 2 ^ nat (- e)) (2 ^ k * 2 ^ nat e) = n * 2 ^ d"
    unfolding num round_half_even_def Let_def by simp
  have val: "n * 2 ^ d * 2 ^ nat e = n * 2 ^ (t - k) * 2 ^ nat (- e)"
  proof -
    have "d + nat e = (t - k) + nat (- e)" using kd kt(1) by (simp add: d_def)
    then have "(2::nat) ^ (d + nat e) = 2 ^ ((t - k) + nat (- e))" by (rule arg_cong)
    then have "(2::nat) ^ d * 2 ^ nat e = 2 ^ (t - k) * 2 ^ nat (- e)"
      by (simp only: power_add)
    then show ?thesis by (simp only: mult.assoc)
  qed
  have fin: "\<not> (0 \<le> e \<and> 2 ^ 1024 \<le> n * 2 ^ d * 2 ^ nat e)"
  proof
    assume a: "0 \<le> e \<and> 2 ^ 1024 \<le> n * 2 ^ d * 2 ^ nat e"
    then have "nat (- e) = 0" by simp
    with val have "n * 2 ^ d * 2 ^ nat e = n * 2 ^ (t - k)" by simp
    also have "\<dots> < 2 ^ 53 * 2 ^ (t - k)" using n(2) by simp
    also have "\<dots> = 2 ^ (53 + (t - k))" by (simp only: power_add)
    also have "\<dots> \<le> 2 ^ 1024" using kt(2) by (intro power_increasing) simp_all
    finally show False using a by simp
  qed
  have "to_double (n * 2 ^ t) (2 ^ k) = Finite (n * 2 ^ d) e"
    unfolding to_double_def Let_def e_def[symmetric] rnd using n(1) fin by simp
  with e_le val show ?thesis by blast
qed

lemma floor_times_whole:
  assumes n: "n < 2 ^ 53" and j: "j \<le> 900"
  shows "Math_floor (double_times (to_double n 1) (2 ^ j)) = enat (n * 2 ^ j)"
proof (cases "n = 0")
  case True
  then show ?thesis by (simp add: to_double_def double_times_def Math_floor_def)
next
  case False
  then have pos: "0 < n" by simp
  from to_double_dyadic[OF pos n, of 0 0] obtain m e where
    d1: "to_double n 1 = Finite m e" and e: "e \<le> 0" and m: "m = n * 2 ^ nat (- e)"
    by auto
  from e have ne: "nat e = 0" by simp
  have "double_times (to_double n 1) (2 ^ j) =
        to_double (n * 2 ^ (nat (- e) + j)) (2 ^ nat (- e))"
    unfolding d1 double_times_def by (simp add: ne m power_add mult.assoc)
  moreover from to_double_dyadic[OF pos n, of "nat (- e)" "nat (- e) + j"] j obtain m' e' where
    "to_double (n * 2 ^ (nat (- e) + j)) (2 ^ nat (- e)) = Finite m' e'"
    and "m' * 2 ^ nat e' = n * 2 ^ j * 2 ^ nat (- e')"
    by auto
  ultimately show ?thesis
    by (simp add: Math_floor_def)
qed

lemma unit_multiple_pow2: "\<exists>j \<le> 30. unit_multiple u = 2 ^ j"
proof -
  have p: "\<exists>j \<le> 30. units c = 2 ^ j" for c
  proof -
    have "units c = 2 ^ 0 \<or> units c = 2 ^ 10 \<or> units c = 2 ^ 20 \<or> units c = 2 ^ 30"
      by (simp add: units_def)
    then show ?thesis
      apply (elim disjE)
         apply (rule exI[of _ 0], simp)
        apply (rule exI[of _ 10], simp)
       apply (rule exI[of _ 20], simp)
      apply (rule exI[of _ 30], simp)
      done
  qed
  show ?thesis
  proof (cases u)
    case None
    then have "unit_multiple u = 2 ^ 0" by (simp add: unit_multiple_def)
    then show ?thesis by blast
  next
    case (Some c)
    with p[of "toLowerCase_unit c"] show ?thesis by (simp add: unit_multiple_def)
  qed
qed

lemma parseSize_whole:
  assumes "size_spec_parts ip [] ws u" and "digits_val ip < 2 ^ 53"
  shows "parseSize (size_spec_string ip [] ws u) = enat (digits_val ip * unit_multiple u)"
proof -
  from unit_multiple_pow2[of u] obtain j where j: "j \<le> 30" "unit_multiple u = 2 ^ j"
    by blast
  from j(1) have "j \<le> 900" by simp
  from floor_times_whole[OF assms(2) this] show ?thesis
    by (simp add: parseSize_accepts[OF assms(1)] j(2))
qed

text \<open>A number of \<open>2 ^ 1024\<close> or more is read as \<open>Infinity\<close>, and so is the size.\<close>

lemma floor_times_overflow: "Math_floor (double_times (to_double (10 ^ 309) 1) n) = \<infinity>"
proof -
  have "to_double (10 ^ 309) 1 = Infinity"
    by (simp add: to_double_def floor_log2_def round_half_even_def Let_def bitlen.simps)
  then show ?thesis
    by (simp add: double_times_def Math_floor_def)
qed

text \<open>
  Claim C7, as amended.  \<^verbatim>\<open>parseSize\<close> maps every string made of a decimal number
  (one or more digits, optionally a dot and one or more digits), any amount of
  white space, and an optional unit letter (b, k, m or g in either case, or
  the Kelvin sign, whose lower-case form is k) to the floor of the product of
  the number and the unit's binary multiple (no unit: bytes), the number and
  the product being rounded to the nearest double and a product too large for
  a double being \<open>Infinity\<close>; for a whole number below \<open>2 ^ 53\<close> that is the
  number times the multiple exactly.  It maps every other string, a bare unit
  letter and the empty string among them, to 10485760.
\<close>

theorem parseSize_grammar:
  "(size_spec_parts ip fp ws u \<longrightarrow>
      parseSize (size_spec_string ip fp ws u) =
        Math_floor (double_times (to_double (digits_val (ip @ fp)) (10 ^ length fp))
                      (unit_multiple u))) \<and>
   (size_spec_parts ip [] ws u \<and> digits_val ip < 2 ^ 53 \<longrightarrow>
      parseSize (size_spec_string ip [] ws u) = enat (digits_val ip * unit_multiple u)) \<and>
   ((\<forall>ip fp ws u. size_spec_parts ip fp ws u \<longrightarrow> s \<noteq> size_spec_string ip fp ws u) \<longrightarrow>
      parseSize s = enat 10485760) \<and>
   unit_multiple None = 1 \<and>
   unit_multiple (Some 0x62) = 1 \<and> unit_multiple (Some 0x42) = 1 \<and>
   unit_multiple (Some 0x6B) = 1024 \<and> unit_multiple (Some 0x4B) = 1024 \<and>
   unit_multiple (Some 0x212A) = 1024 \<and>
   unit_multiple (Some 0x6D) = 1048576 \<and> unit_multiple (Some 0x4D) = 1048576 \<and>
   unit_multiple (Some 0x67) = 1073741824 \<and> unit_multiple (Some 0x47) = 1073741824"
proof -
  have "size_spec_parts ip fp ws u \<longrightarrow>
      parseSize (size_spec_string ip fp ws u) =
        Math_floor (double_times (to_double (digits_val (ip @ fp)) (10 ^ length fp))
                      (unit_multiple u))"
    by (simp add: parseSize_accepts)
  moreover have "size_spec_parts ip [] ws u \<and> digits_val ip < 2 ^ 53 \<longrightarrow>
      parseSize (size_spec_string ip [] ws u) = enat (digits_val ip * unit_multiple u)"
    using parseSize_whole[of ip ws u] by blast
  moreover have "(\<forall>ip fp ws u. size_spec_parts ip fp ws u \<longrightarrow> s \<noteq> size_spec_string ip fp ws u) \<longrightarrow>
      parseSize s = enat 10485760"
    using parseSize_rejects[of s] by blast
  ultimately show ?thesis
    using unit_multiple_values by blast
qed

theorem parseSize_grammar_witness:
  "size_spec_parts (utf16 ''1'') (utf16 ''5'') (utf16 '' '') (Some 0x4B) \<and>
   parseSize (utf16 ''1.5 K'') = enat 1536 \<and>
   size_spec_parts (utf16 ''5'') [] [] (Some 0x212A) \<and>
   parseSize [0x35, 0x212A] = enat 5120 \<and>
   parseSize (utf16 ''k'') = enat 10485760"
proof -
  have parts: "size_spec_parts (utf16 ''1'') (utf16 ''5'') (utf16 '' '') (Some 0x4B)"
    by (simp add: size_spec_parts_def utf16_def digit_unit_def space_unit_def unit_letter_def)
  have str: "size_spec_string (utf16 ''1'') (utf16 ''5'') (utf16 '' '') (Some 0x4B) = utf16 ''1.5 K''"
    by (simp add: size_spec_string_def number_text_def utf16_def)
  have num: "to_double (digits_val (utf16 ''1'' @ utf16 ''5'')) (10 ^ length (utf16 ''5'')) =
             Finite 6755399441055744 (- 52)"
    apply (simp add: digits_val_def digit_val_def utf16_def)
    apply (simp add: to_double_def floor_log2_def round_half_even_def Let_def bitlen.simps)
    done
  have prod: "double_times (Finite 6755399441055744 (- 52)) 1024 = Finite 6755399441055744 (- 42)"
    apply (simp add: double_times_def)
    apply (simp add: to_double_def floor_log2_def round_half_even_def Let_def bitlen.simps)
    done
  have val: "Math_floor (double_times (to_double (digits_val (utf16 ''1'' @ utf16 ''5''))
                 (10 ^ length (utf16 ''5''))) 1024) = enat 1536"
    unfolding num prod by (simp add: Math_floor_def)
  have parts2: "size_spec_parts (utf16 ''5'') [] [] (Some 0x212A)"
    by (simp add: size_spec_parts_def utf16_def digit_unit_def unit_letter_def)
  have str2: "size_spec_string (utf16 ''5'') [] [] (Some 0x212A) = [0x35, 0x212A]"
    by (simp add: size_spec_string_def number_text_def utf16_def)
  have val2: "digits_val (utf16 ''5'') = 5"
    by (simp add: digits_val_def digit_val_def utf16_def)
  have rej: "\<forall>ip fp ws u. size_spec_parts ip fp ws u \<longrightarrow> utf16 ''k'' \<noteq> size_spec_string ip fp ws u"
  proof (intro allI impI notI)
    fix ip fp ws u
    assume p: "size_spec_parts ip fp ws u" and e: "utf16 ''k'' = size_spec_string ip fp ws u"
    from p obtain d ds where ip: "ip = d # ds" and d: "digit_unit d"
      by (cases ip) (auto simp: size_spec_parts_def)
    from e ip have "d = 0x6B" by (simp add: size_spec_string_def number_text_def utf16_def)
    with d show False by (simp add: digit_unit_def)
  qed
  note a = parseSize_grammar[of "utf16 ''1''" "utf16 ''5''" "utf16 '' ''" "Some 0x4B" "utf16 ''k''"]
  note b = parseSize_grammar[of "utf16 ''5''" "[]" "[]" "Some 0x212A" "utf16 ''k''"]
  have kilo: "unit_multiple (Some 0x4B) = 1024"
    by (simp add: unit_multiple_def units_def toLowerCase_unit_def)
  from a parts have
    "parseSize (size_spec_string (utf16 ''1'') (utf16 ''5'') (utf16 '' '') (Some 0x4B)) =
       Math_floor (double_times (to_double (digits_val (utf16 ''1'' @ utf16 ''5''))
                 (10 ^ length (utf16 ''5''))) (unit_multiple (Some 0x4B)))"
    by blast
  then have r1: "parseSize (utf16 ''1.5 K'') = enat 1536"
    unfolding str kilo val .
  have kelvin: "unit_multiple (Some 0x212A) = 1024"
    by (simp add: unit_multiple_def units_def toLowerCase_unit_def)
  have "digits_val (utf16 ''5'') < 2 ^ 53"
    unfolding val2 by simp
  with b parts2 have
    "parseSize (size_spec_string (utf16 ''5'') [] [] (Some 0x212A)) =
       enat (digits_val (utf16 ''5'') * unit_multiple (Some 0x212A))"
    by blast
  then have "parseSize (size_spec_string (utf16 ''5'') [] [] (Some 0x212A)) = enat (5 * 1024)"
    unfolding val2 kelvin .
  then have r2: "parseSize [0x35, 0x212A] = enat 5120"
    unfolding str2 by simp
  from a rej have r3: "parseSize (utf16 ''k'') = enat 10485760"
    by blast
  from parts r1 parts2 r2 r3 show ?thesis by blast
qed

text \<open>
  The claim as stated fails in four ways.  \<^verbatim>\<open>"5 k"\<close> is not in the grammar the
  specification gives (white space stands between the number and the unit),
  and neither is a 5 followed by the Kelvin sign, yet \<^verbatim>\<open>parseSize\<close> answers
  5120 for both and not the default.  \<^verbatim>\<open>"k"\<close> is in that grammar, a unit with
  the number left out, and the answer is the default.  \<^verbatim>\<open>"657.0328706g"\<close> is
  in the grammar, and the answer is not the floor of the number times the
  multiple, 705483672905, but one more: the number read is the nearest
  double, which is above 657.0328706.
\<close>

theorem parseSize_claim_counterexample:
  "\<not> spec_size_grammar (utf16 ''5 k'') \<and> parseSize (utf16 ''5 k'') = enat 5120 \<and>
   \<not> spec_size_grammar [0x35, 0x212A] \<and> parseSize [0x35, 0x212A] = enat 5120 \<and>
   spec_size_grammar (utf16 ''k'') \<and> parseSize (utf16 ''k'') = enat 10485760 \<and>
   spec_size_grammar (utf16 ''657.0328706g'') \<and>
   digits_val (utf16 ''6570328706'') * unit_multiple (Some 0x67) div 10 ^ 7 = 705483672905 \<and>
   parseSize (utf16 ''657.0328706g'') = enat 705483672906"
proof -
  have five: "parseFloat [0x35] = Finite 5629499534213120 (- 50)"
    apply (simp add: parseFloat_def digit_unit_def digits_val_def digit_val_def)
    apply (simp add: to_double_def floor_log2_def round_half_even_def Let_def bitlen.simps)
    done
  have five_k: "double_times (Finite 5629499534213120 (- 50)) 1024 = Finite 5629499534213120 (- 40)"
    apply (simp add: double_times_def)
    apply (simp add: to_double_def floor_log2_def round_half_even_def Let_def bitlen.simps)
    done
  have five_floor: "Math_floor (Finite 5629499534213120 (- 40)) = enat 5120"
    by (simp add: Math_floor_def)
  have m1: "match_size (toLowerCase (utf16 ''5 k'')) = Some ([0x35], Some 0x6B)"
    by (simp add: utf16_def toLowerCase_def toLowerCase_unit_def match_size_def digit_unit_def
        space_unit_def unit_unit_def)
  have m2: "match_size (toLowerCase [0x35, 0x212A]) = Some ([0x35], Some 0x6B)"
    by (simp add: toLowerCase_def toLowerCase_unit_def match_size_def digit_unit_def
        space_unit_def unit_unit_def)
  have m3: "match_size (toLowerCase (utf16 ''k'')) = None"
    by (simp add: utf16_def toLowerCase_def toLowerCase_unit_def match_size_def digit_unit_def)
  have m4: "match_size (toLowerCase (utf16 ''657.0328706g'')) =
      Some ([54, 53, 55, 46, 48, 51, 50, 56, 55, 48, 54], Some 0x67)"
    by (simp add: utf16_def toLowerCase_def toLowerCase_unit_def match_size_def digit_unit_def
        space_unit_def unit_unit_def)
  have num: "parseFloat [54, 53, 55, 46, 48, 51, 50, 56, 55, 48, 54] =
      Finite 5779322248445952 (- 43)"
    apply (simp add: parseFloat_def digit_unit_def digits_val_def digit_val_def)
    apply (simp add: to_double_def floor_log2_def round_half_even_def Let_def bitlen.simps)
    done
  have num_g: "double_times (Finite 5779322248445952 (- 43)) 1073741824 =
      Finite 5779322248445952 (- 13)"
    apply (simp add: double_times_def)
    apply (simp add: to_double_def floor_log2_def round_half_even_def Let_def bitlen.simps)
    done
  have num_floor: "Math_floor (Finite 5779322248445952 (- 13)) = enat 705483672906"
    by (simp add: Math_floor_def)
  have c1: "\<not> spec_size_grammar (utf16 ''5 k'')"
    by (simp add: utf16_def spec_size_grammar_def digit_unit_def)
  have c2: "parseSize (utf16 ''5 k'') = enat 5120"
    by (simp add: parseSize_def m1 five units_def five_k five_floor)
  have c3: "\<not> spec_size_grammar [0x35, 0x212A]"
    by (simp add: utf16_def spec_size_grammar_def digit_unit_def)
  have c4: "parseSize [0x35, 0x212A] = enat 5120"
    by (simp add: parseSize_def m2 five units_def five_k five_floor)
  have c5: "spec_size_grammar (utf16 ''k'')"
    by (simp add: utf16_def spec_size_grammar_def digit_unit_def)
  have c6: "parseSize (utf16 ''k'') = enat 10485760"
    by (simp add: parseSize_def m3)
  have c7: "spec_size_grammar (utf16 ''657.0328706g'')"
    by (simp add: utf16_def spec_size_grammar_def digit_unit_def)
  have c8: "digits_val (utf16 ''6570328706'') * unit_multiple (Some 0x67) div 10 ^ 7 = 705483672905"
    by (simp add: utf16_def digits_val_def digit_val_def unit_multiple_def units_def
        toLowerCase_unit_def)
  have c9: "parseSize (utf16 ''657.0328706g'') = enat 705483672906"
    by (simp add: parseSize_def m4 num units_def num_g num_floor)
  show ?thesis
    by (intro conjI) (rule c1, rule c2, rule c3, rule c4, rule c5, rule c6, rule c7, rule c8, rule c9)
qed


section \<open>Properties of rotation\<close>

lemma basename_extname: "basename_ext n (extname n) @ extname n = n"
proof (cases "extname n = []")
  case True
  then show ?thesis by (simp add: basename_ext_def)
next
  case False
  define after where "after = rev (takeWhile (\<lambda>c. c \<noteq> CHR ''.'') (rev n))"
  from False have ext: "extname n = CHR ''.'' # after"
    and dot: "CHR ''.'' \<in> set n" and len: "length after + 1 \<noteq> length n"
    by (auto simp: extname_def Let_def after_def split: if_splits)
  from dot have "dropWhile (\<lambda>c. c \<noteq> CHR ''.'') (rev n) \<noteq> []"
    by (simp add: dropWhile_eq_Nil_conv)
  moreover have "\<And>x xs. dropWhile (\<lambda>c. c \<noteq> CHR ''.'') (rev n) = x # xs \<Longrightarrow> x = CHR ''.''"
    using hd_dropWhile[of "\<lambda>c. c \<noteq> CHR ''.''" "rev n"] by force
  ultimately obtain xs where dw: "dropWhile (\<lambda>c. c \<noteq> CHR ''.'') (rev n) = CHR ''.'' # xs"
    by (cases "dropWhile (\<lambda>c. c \<noteq> CHR ''.'') (rev n)") auto
  have "rev n = rev after @ CHR ''.'' # xs"
    using takeWhile_dropWhile_id[of "\<lambda>c. c \<noteq> CHR ''.''" "rev n"] dw
    by (simp add: after_def)
  then have "rev (rev n) = rev (rev after @ CHR ''.'' # xs)" by simp
  then have n: "n = rev xs @ CHR ''.'' # after" by simp
  have "n = rev xs @ extname n" using n ext by simp
  then have suf: "suffix (extname n) n" by (rule suffixI)
  have "length (extname n) \<noteq> length n" using len by (simp add: ext)
  then have ne: "extname n \<noteq> n" by auto
  from n have "length n = length (rev xs @ CHR ''.'' # after)" by simp
  then have ln: "length n = length xs + 1 + length after" by simp
  have "take (length xs) (rev xs @ CHR ''.'' # after) = rev xs" by simp
  then have "take (length xs) n = rev xs" using n by simp
  moreover have "length n - length (extname n) = length xs"
    by (simp add: ln ext)
  ultimately have take: "take (length n - length (extname n)) n = rev xs" by simp
  have "length (extname n) \<le> length n" using suf by (rule suffix_length_le)
  then have "basename_ext n (extname n) = rev xs"
    using False suf ne take by (simp add: basename_ext_def)
  with n ext show ?thesis by simp
qed

lemma rotatedPath_neq: "rotatedPath isoStr filePath \<noteq> filePath"
proof
  assume "rotatedPath isoStr filePath = filePath"
  then have "length (rotatedPath isoStr filePath) = length filePath" by simp
  moreover have "length filePath =
      length (basename_ext filePath (extname filePath)) + length (extname filePath)"
    using basename_extname[of filePath] by (metis length_append)
  ultimately show False by (simp add: rotatedPath_def)
qed

lemma map_of_renamed:
  assumes "old \<noteq> new"
  shows "map_of (filter (\<lambda>e. fst e \<noteq> old \<and> fst e \<noteq> new) d @ [(new, f)]) =
         (map_of d)(old := None, new \<mapsto> f)"
proof
  fix n
  have "map_of (filter (\<lambda>e. fst e \<noteq> old \<and> fst e \<noteq> new) d) n =
        (if n = old \<or> n = new then None else map_of d n)"
    by (induction d) auto
  then show "map_of (filter (\<lambda>e. fst e \<noteq> old \<and> fst e \<noteq> new) d @ [(new, f)]) n =
        ((map_of d)(old := None, new \<mapsto> f)) n"
    using assms by (simp add: map_add_def split: option.splits)
qed

lemma map_of_rotateFile:
  assumes "map_of d filePath = Some f" and "\<not> locked f"
    and "\<forall>g. map_of d (rotatedPath isoStr filePath) = Some g \<longrightarrow> \<not> locked g"
  shows "map_of (rotateFile isoStr filePath d) =
         (map_of d)(filePath := None, rotatedPath isoStr filePath \<mapsto> f)"
proof -
  have ne: "filePath \<noteq> rotatedPath isoStr filePath"
    by (rule rotatedPath_neq[THEN not_sym])
  from assms have "renameSync d filePath (rotatedPath isoStr filePath) =
      Inr (filter (\<lambda>e. fst e \<noteq> filePath \<and> fst e \<noteq> rotatedPath isoStr filePath) d @
           [(rotatedPath isoStr filePath, f)])"
    using ne by (auto simp: renameSync_def split: option.splits)
  then show ?thesis
    by (simp only: rotateFile_def sum.case map_of_renamed[OF ne])
qed

lemma digit_plain:
  "is_digit c \<Longrightarrow>
   c \<noteq> CHR '':'' \<and> c \<noteq> CHR ''.'' \<and> c \<noteq> CHR ''T'' \<and> c \<noteq> CHR ''Z'' \<and> c \<noteq> CHR ''-''"
  by (auto simp: is_digit_def)

lemma map_colon_dot_digits:
  "list_all is_digit ds \<Longrightarrow>
   map (\<lambda>c. if c = CHR '':'' \<or> c = CHR ''.'' then CHR ''-'' else c) ds = ds"
  by (induction ds) (auto dest: digit_plain)

lemma digits_without:
  "list_all is_digit ds \<Longrightarrow> CHR ''T'' \<notin> set ds \<and> CHR ''Z'' \<notin> set ds"
  by (induction ds) (auto dest: digit_plain)

lemma replace_first_found:
  "a \<notin> set xs \<Longrightarrow> replace_first a b (xs @ a # ys) = xs @ b # ys"
  by (induction xs) auto

lemma takeWhile_before:
  "a \<notin> set xs \<Longrightarrow> takeWhile (\<lambda>c. c \<noteq> a) (xs @ a # ys) = xs"
  by (induction xs) auto

lemma rotation_timestamp_iso:
  assumes "list_all is_digit yr" "list_all is_digit mo" "list_all is_digit dy"
    "list_all is_digit hr" "list_all is_digit mi" "list_all is_digit sc" "list_all is_digit ms"
  shows "rotation_timestamp (iso_string yr mo dy hr mi sc ms) =
         yr @ ''-'' @ mo @ ''-'' @ dy @ ''_'' @ hr @ ''-'' @ mi @ ''-'' @ sc @ ''-'' @ ms"
proof -
  let ?g = "\<lambda>c. if c = CHR '':'' \<or> c = CHR ''.'' then CHR ''-'' else c"
  define date where "date = yr @ ''-'' @ mo @ ''-'' @ dy"
  define time where "time = hr @ ''-'' @ mi @ ''-'' @ sc @ ''-'' @ ms"
  have m: "map ?g (iso_string yr mo dy hr mi sc ms) = date @ CHR ''T'' # time @ CHR ''Z'' # []"
    using assms by (simp add: iso_string_def date_def time_def map_colon_dot_digits)
  have noT: "CHR ''T'' \<notin> set date"
    using assms(1-3) by (auto simp: date_def dest: digits_without)
  have noZ: "CHR ''Z'' \<notin> set (date @ CHR ''_'' # time)"
    using assms by (auto simp: date_def time_def dest: digits_without)
  have "replace_first (CHR ''T'') (CHR ''_'') (date @ CHR ''T'' # time @ [CHR ''Z''])
        = date @ CHR ''_'' # time @ [CHR ''Z'']"
    using noT by (rule replace_first_found)
  moreover have "takeWhile (\<lambda>c. c \<noteq> CHR ''Z'') ((date @ CHR ''_'' # time) @ CHR ''Z'' # [])
        = date @ CHR ''_'' # time"
    using noZ by (rule takeWhile_before)
  ultimately have "rotation_timestamp (iso_string yr mo dy hr mi sc ms) = date @ CHR ''_'' # time"
    unfolding rotation_timestamp_def m by simp
  then show ?thesis by (simp add: date_def time_def)
qed

lemma cleanup_within_limit:
  "int (length (siblings filePath d)) \<le> maxFiles opts \<Longrightarrow> cleanupOldFiles opts filePath d = d"
  by (simp add: cleanupOldFiles_def Let_def)

text \<open>
  Claim C5, as amended.  \<^verbatim>\<open>checkAndRotate\<close> leaves the directory as it is when
  rotation is disabled, the file is absent, or its size does not exceed the
  parsed threshold.  When the size exceeds the threshold it renames the
  active file and then runs the retention cleanup.  The rename, when it
  does not fail, removes the active name and binds the rotated name to the
  same file, changing nothing else; the rotated name is the base name, a hyphen,
  the time stamp and the extension; the time stamp is the ISO string with
  colons and dots replaced by hyphens, the \<^verbatim>\<open>T\<close> replaced by an underscore
  and the trailing \<^verbatim>\<open>Z\<close> dropped.  When the siblings present after the rename
  do not outnumber \<open>maxFiles\<close>, the cleanup removes nothing.
\<close>

theorem checkAndRotate_rotation:
  "(\<not> enabled opts \<or> map_of d filePath = None \<or>
      (\<exists>g. map_of d filePath = Some g \<and> enat (st_size g) \<le> parseSize (maxSize opts)) \<longrightarrow>
        checkAndRotate opts isoStr filePath d = d) \<and>
   (enabled opts \<and> map_of d filePath = Some f \<and> parseSize (maxSize opts) < enat (st_size f) \<longrightarrow>
      checkAndRotate opts isoStr filePath d =
        cleanupOldFiles opts filePath (rotateFile isoStr filePath d)) \<and>
   (map_of d filePath = Some f \<and> \<not> locked f \<and>
      (\<forall>g. map_of d (rotatedPath isoStr filePath) = Some g \<longrightarrow> \<not> locked g) \<longrightarrow>
        map_of (rotateFile isoStr filePath d) =
          (map_of d)(filePath := None, rotatedPath isoStr filePath \<mapsto> f)) \<and>
   (\<exists>base. filePath = base @ extname filePath \<and>
      rotatedPath isoStr filePath =
        base @ ''-'' @ rotation_timestamp isoStr @ extname filePath) \<and>
   (list_all is_digit yr \<and> list_all is_digit mo \<and> list_all is_digit dy \<and>
    list_all is_digit hr \<and> list_all is_digit mi \<and> list_all is_digit sc \<and>
    list_all is_digit ms \<longrightarrow>
      rotation_timestamp (iso_string yr mo dy hr mi sc ms) =
        yr @ ''-'' @ mo @ ''-'' @ dy @ ''_'' @ hr @ ''-'' @ mi @ ''-'' @ sc @ ''-'' @ ms) \<and>
   (int (length (siblings filePath (rotateFile isoStr filePath d))) \<le> maxFiles opts \<longrightarrow>
      cleanupOldFiles opts filePath (rotateFile isoStr filePath d) =
        rotateFile isoStr filePath d)"
proof -
  have noop: "checkAndRotate opts isoStr filePath d = d"
    if "\<not> enabled opts \<or> map_of d filePath = None \<or>
        (\<exists>g. map_of d filePath = Some g \<and> enat (st_size g) \<le> parseSize (maxSize opts))"
    using that by (auto simp: checkAndRotate_def existsSync_def statSync_def)
  have rot: "checkAndRotate opts isoStr filePath d =
        cleanupOldFiles opts filePath (rotateFile isoStr filePath d)"
    if "enabled opts \<and> map_of d filePath = Some f \<and> parseSize (maxSize opts) < enat (st_size f)"
    using that by (simp add: checkAndRotate_def existsSync_def statSync_def)
  have name: "\<exists>base. filePath = base @ extname filePath \<and>
      rotatedPath isoStr filePath =
        base @ ''-'' @ rotation_timestamp isoStr @ extname filePath"
    by (intro exI[of _ "basename_ext filePath (extname filePath)"])
       (simp add: basename_extname rotatedPath_def)
  have ren: "map_of d filePath = Some f \<and> \<not> locked f \<and>
      (\<forall>g. map_of d (rotatedPath isoStr filePath) = Some g \<longrightarrow> \<not> locked g) \<longrightarrow>
        map_of (rotateFile isoStr filePath d) =
          (map_of d)(filePath := None, rotatedPath isoStr filePath \<mapsto> f)"
    using map_of_rotateFile[of d filePath f isoStr] by blast
  have stamp: "list_all is_digit yr \<and> list_all is_digit mo \<and> list_all is_digit dy \<and>
    list_all is_digit hr \<and> list_all is_digit mi \<and> list_all is_digit sc \<and>
    list_all is_digit ms \<longrightarrow>
      rotation_timestamp (iso_string yr mo dy hr mi sc ms) =
        yr @ ''-'' @ mo @ ''-'' @ dy @ ''_'' @ hr @ ''-'' @ mi @ ''-'' @ sc @ ''-'' @ ms"
    using rotation_timestamp_iso[of yr mo dy hr mi sc ms] by blast
  have keep: "int (length (siblings filePath (rotateFile isoStr filePath d))) \<le> maxFiles opts \<longrightarrow>
      cleanupOldFiles opts filePath (rotateFile isoStr filePath d) =
        rotateFile isoStr filePath d"
    using cleanup_within_limit[of filePath "rotateFile isoStr filePath d" opts] by blast
  from noop have c1: "\<not> enabled opts \<or> map_of d filePath = None \<or>
      (\<exists>g. map_of d filePath = Some g \<and> enat (st_size g) \<le> parseSize (maxSize opts)) \<longrightarrow>
        checkAndRotate opts isoStr filePath d = d"
    by (rule impI)
  from rot have c2: "enabled opts \<and> map_of d filePath = Some f \<and> parseSize (maxSize opts) < enat (st_size f) \<longrightarrow>
      checkAndRotate opts isoStr filePath d =
        cleanupOldFiles opts filePath (rotateFile isoStr filePath d)"
    by (rule impI)
  show ?thesis
    by (intro conjI) (rule c1, rule c2, rule ren, rule name, rule stamp, rule keep)
qed

text \<open>A worked rotation: \<^verbatim>\<open>app.log\<close> of 2000 bytes against a threshold of \<^verbatim>\<open>1k\<close>.\<close>

lemma example_names:
  "extname ''app.log'' = ''.log''" "basename_ext ''app.log'' ''.log'' = ''app''"
  by (simp_all add: extname_def basename_ext_def suffix_to_prefix)

lemma example_timestamp:
  "rotation_timestamp ''2024-01-02T03:04:05.678Z'' = ''2024-01-02_03-04-05-678''"
  by (simp add: rotation_timestamp_def)

lemma example_rotatedPath:
  "rotatedPath ''2024-01-02T03:04:05.678Z'' ''app.log'' = ''app-2024-01-02_03-04-05-678.log''"
  by (simp add: rotatedPath_def example_names example_timestamp)

lemma example_threshold: "parseSize (utf16 ''1k'') = enat 1024"
proof -
  have m: "match_size (toLowerCase (utf16 ''1k'')) = Some ([0x31], Some 0x6B)"
    by (simp add: utf16_def toLowerCase_def toLowerCase_unit_def match_size_def digit_unit_def
        space_unit_def unit_unit_def)
  have one: "parseFloat [0x31] = Finite 4503599627370496 (- 52)"
    apply (simp add: parseFloat_def digit_unit_def digits_val_def digit_val_def)
    apply (simp add: to_double_def floor_log2_def round_half_even_def Let_def bitlen.simps)
    done
  have one_k: "double_times (Finite 4503599627370496 (- 52)) 1024 = Finite 4503599627370496 (- 42)"
    apply (simp add: double_times_def)
    apply (simp add: to_double_def floor_log2_def round_half_even_def Let_def bitlen.simps)
    done
  have "Math_floor (Finite 4503599627370496 (- 42)) = enat 1024"
    by (simp add: Math_floor_def)
  then show ?thesis
    by (simp add: parseSize_def m one units_def one_k)
qed

lemma example_rotateFile:
  "rotateFile ''2024-01-02T03:04:05.678Z'' ''app.log''
     [(''app.log'', \<lparr>st_size = 2000, mtime = 50, locked = False\<rparr>)]
   = [(''app-2024-01-02_03-04-05-678.log'', \<lparr>st_size = 2000, mtime = 50, locked = False\<rparr>)]"
  by (simp add: rotateFile_def renameSync_def example_rotatedPath)

lemma example_siblings:
  "siblings ''app.log''
     [(''app-2024-01-02_03-04-05-678.log'', \<lparr>st_size = 2000, mtime = 50, locked = False\<rparr>)]
   = [(''app-2024-01-02_03-04-05-678.log'', \<lparr>st_size = 2000, mtime = 50, locked = False\<rparr>)]"
  by (simp add: siblings_def is_sibling_def example_names suffix_to_prefix)

theorem checkAndRotate_rotation_witness:
  "checkAndRotate \<lparr>enabled = True, maxSize = utf16 ''1k'', maxFiles = 5, compress = False\<rparr>
     ''2024-01-02T03:04:05.678Z'' ''app.log''
     [(''app.log'', \<lparr>st_size = 1024, mtime = 50, locked = False\<rparr>)]
   = [(''app.log'', \<lparr>st_size = 1024, mtime = 50, locked = False\<rparr>)] \<and>
   map_of (checkAndRotate \<lparr>enabled = True, maxSize = utf16 ''1k'', maxFiles = 5, compress = False\<rparr>
     ''2024-01-02T03:04:05.678Z'' ''app.log''
     [(''app.log'', \<lparr>st_size = 2000, mtime = 50, locked = False\<rparr>)])
   = [''app-2024-01-02_03-04-05-678.log'' \<mapsto> \<lparr>st_size = 2000, mtime = 50, locked = False\<rparr>] \<and>
   rotation_timestamp ''2024-01-02T03:04:05.678Z'' = ''2024-01-02_03-04-05-678''"
proof -
  let ?o = "\<lparr>enabled = True, maxSize = utf16 ''1k'', maxFiles = 5, compress = False\<rparr>"
  let ?iso = "''2024-01-02T03:04:05.678Z''"
  let ?small = "\<lparr>st_size = 1024, mtime = 50, locked = False\<rparr>"
  let ?big = "\<lparr>st_size = 2000, mtime = 50, locked = False\<rparr>"
  let ?rot = "''app-2024-01-02_03-04-05-678.log''"
  have iso: "iso_string ''2024'' ''01'' ''02'' ''03'' ''04'' ''05'' ''678'' = ?iso"
    by (simp add: iso_string_def)
  have digs: "list_all is_digit ''2024''" "list_all is_digit ''01''" "list_all is_digit ''02''"
    "list_all is_digit ''03''" "list_all is_digit ''04''" "list_all is_digit ''05''"
    "list_all is_digit ''678''"
    by (simp_all add: is_digit_def)
  note small = checkAndRotate_rotation[of ?o "[(''app.log'', ?small)]" "''app.log''" ?iso ?small]
  note big = checkAndRotate_rotation[of ?o "[(''app.log'', ?big)]" "''app.log''" ?iso ?big
      "''2024''" "''01''" "''02''" "''03''" "''04''" "''05''" "''678''", unfolded iso]
  have a: "checkAndRotate ?o ?iso ''app.log'' [(''app.log'', ?small)] = [(''app.log'', ?small)]"
    using small by (simp add: example_threshold)
  have b1: "checkAndRotate ?o ?iso ''app.log'' [(''app.log'', ?big)] =
      cleanupOldFiles ?o ''app.log'' (rotateFile ?iso ''app.log'' [(''app.log'', ?big)])"
    using big by (simp add: example_threshold)
  have b2: "cleanupOldFiles ?o ''app.log'' (rotateFile ?iso ''app.log'' [(''app.log'', ?big)]) =
      rotateFile ?iso ''app.log'' [(''app.log'', ?big)]"
    using big by (simp add: example_rotateFile example_siblings)
  have b3: "map_of (rotateFile ?iso ''app.log'' [(''app.log'', ?big)]) =
      (map_of [(''app.log'', ?big)])(''app.log'' := None, rotatedPath ?iso ''app.log'' \<mapsto> ?big)"
    using big by (simp add: example_rotatedPath)
  have c: "rotation_timestamp ?iso = ''2024-01-02_03-04-05-678''"
    using big digs by simp
  have "map_of (checkAndRotate ?o ?iso ''app.log'' [(''app.log'', ?big)]) = [?rot \<mapsto> ?big]"
    unfolding b1 b2 b3 example_rotatedPath by (simp add: fun_eq_iff)
  with a c show ?thesis by blast
qed

text \<open>
  The claim as stated fails on the same input: the name the specification
  gives keeps the \<^verbatim>\<open>T\<close> and the \<^verbatim>\<open>Z\<close> of the ISO string, and no file of that name
  exists after the rotation.
\<close>

theorem rotated_name_counterexample:
  "map fst (checkAndRotate \<lparr>enabled = True, maxSize = utf16 ''1k'', maxFiles = 5, compress = False\<rparr>
     ''2024-01-02T03:04:05.678Z'' ''app.log''
     [(''app.log'', \<lparr>st_size = 2000, mtime = 50, locked = False\<rparr>)])
   = [''app-2024-01-02_03-04-05-678.log''] \<and>
   spec_rotatedPath ''2024-01-02T03:04:05.678Z'' ''app.log''
   = ''app-2024-01-02T03-04-05-678Z.log'' \<and>
   spec_rotatedPath ''2024-01-02T03:04:05.678Z'' ''app.log'' \<notin>
     set (map fst (checkAndRotate
       \<lparr>enabled = True, maxSize = utf16 ''1k'', maxFiles = 5, compress = False\<rparr>
       ''2024-01-02T03:04:05.678Z'' ''app.log''
       [(''app.log'', \<lparr>st_size = 2000, mtime = 50, locked = False\<rparr>)]))"
proof -
  let ?o = "\<lparr>enabled = True, maxSize = utf16 ''1k'', maxFiles = 5, compress = False\<rparr>"
  let ?big = "\<lparr>st_size = 2000, mtime = 50, locked = False\<rparr>"
  have cl: "cleanupOldFiles ?o ''app.log''
      [(''app-2024-01-02_03-04-05-678.log'', ?big)]
      = [(''app-2024-01-02_03-04-05-678.log'', ?big)]"
    by (simp add: cleanupOldFiles_def example_siblings)
  have run: "checkAndRotate ?o ''2024-01-02T03:04:05.678Z'' ''app.log'' [(''app.log'', ?big)]
      = [(''app-2024-01-02_03-04-05-678.log'', ?big)]"
    by (simp add: checkAndRotate_def existsSync_def statSync_def example_threshold
        example_rotateFile cl)
  have spec: "spec_rotatedPath ''2024-01-02T03:04:05.678Z'' ''app.log''
      = ''app-2024-01-02T03-04-05-678Z.log''"
    by (simp add: spec_rotatedPath_def example_names)
  show ?thesis unfolding run spec by simp
qed


section \<open>Properties of retention\<close>

lemma map_of_remove_name:
  "map_of (filter (\<lambda>e. fst e \<noteq> a) d) n = (if n = a then None else map_of d n)"
  by (induction d) auto

lemma map_of_try_unlink:
  "map_of (try_unlink d a) n =
     (case map_of d n of
        None \<Rightarrow> None
      | Some f \<Rightarrow> if n = a \<and> \<not> locked f then None else Some f)"
  by (auto simp: try_unlink_def unlinkSync_def map_of_remove_name split: option.splits)

lemma map_of_foldl_try_unlink:
  "map_of (foldl try_unlink d ns) n =
     (case map_of d n of
        None \<Rightarrow> None
      | Some f \<Rightarrow> if n \<in> set ns \<and> \<not> locked f then None else Some f)"
proof (induction ns arbitrary: d)
  case Nil
  then show ?case by (simp split: option.splits)
next
  case (Cons a ns)
  show ?case
    by (simp add: Cons.IH map_of_try_unlink split: option.splits)
qed

text \<open>
  In a list sorted strictly by \<open>g\<close>, the elements from index \<open>k\<close> on are those
  with at least \<open>k\<close> elements before them in the order.
\<close>

lemma strict_sorted_drop:
  assumes "sorted_wrt (\<lambda>a b. g a < (g b :: int)) xs"
  shows "x \<in> set (drop k xs) \<longleftrightarrow> x \<in> set xs \<and> k \<le> card {y \<in> set xs. g y < g x}"
  using assms
proof (induction xs arbitrary: k)
  case Nil
  then show ?case by simp
next
  case (Cons a xs)
  from Cons.prems have lt: "\<forall>y \<in> set xs. g a < g y" and srt: "sorted_wrt (\<lambda>a b. g a < g b) xs"
    by simp_all
  show ?case
  proof (cases "x = a")
    case True
    with lt have "{y \<in> set (a # xs). g y < g x} = {}" by auto
    then have c0: "card {y \<in> set (a # xs). g y < g x} = 0" by simp
    from lt True have "x \<notin> set xs" by auto
    then have nd: "x \<notin> set (drop (k - 1) xs)" by (meson in_set_dropD)
    have kz: "x \<in> set (drop k (a # xs)) \<longleftrightarrow> k = 0"
      using nd True by (cases k) simp_all
    show ?thesis
      unfolding c0 kz using True by simp
  next
    case False
    show ?thesis
    proof (cases "x \<in> set xs")
      case inxs: True
      with lt have "{y \<in> set (a # xs). g y < g x} = insert a {y \<in> set xs. g y < g x}"
        by auto
      moreover have "a \<notin> {y \<in> set xs. g y < g x}" using lt by auto
      ultimately have c: "card {y \<in> set (a # xs). g y < g x} = Suc (card {y \<in> set xs. g y < g x})"
        by simp
      show ?thesis
      proof (cases k)
        case 0
        with inxs show ?thesis by simp
      next
        case (Suc k')
        have "x \<in> set (drop k (a # xs)) \<longleftrightarrow> x \<in> set (drop k' xs)"
          by (simp add: Suc)
        also have "\<dots> \<longleftrightarrow> x \<in> set xs \<and> k' \<le> card {y \<in> set xs. g y < g x}"
          by (rule Cons.IH[OF srt])
        finally show ?thesis
          unfolding c using inxs Suc by simp
      qed
    next
      case notin: False
      with False have "x \<notin> set (a # xs)" by simp
      then have "x \<notin> set (drop k (a # xs))" by (meson in_set_dropD)
      with \<open>x \<notin> set (a # xs)\<close> show ?thesis by blast
    qed
  qed
qed

lemma sort_newest_first_strict:
  assumes "distinct (map (\<lambda>e. mtime (snd e)) (xs :: (string \<times> file_stat) list))"
  shows "sorted_wrt (\<lambda>a b. - mtime (snd a) < - mtime (snd b))
           (sort_key (\<lambda>e. - mtime (snd e)) xs)"
proof -
  let ?key = "\<lambda>e :: string \<times> file_stat. - mtime (snd e)"
  from assms have "distinct xs" "inj_on (\<lambda>e. mtime (snd e)) (set xs)"
    by (simp_all add: distinct_map)
  then have "distinct xs" "inj_on ?key (set xs)"
    by (auto simp: inj_on_def)
  then have "distinct (map ?key (sort_key ?key xs))"
    by (simp add: distinct_map)
  then have "sorted_wrt (<) (map ?key (sort_key ?key xs))"
    by (simp add: strict_sorted_iff)
  then show ?thesis by (simp add: sorted_wrt_map)
qed

lemma siblings_subset: "set (siblings filePath d) \<subseteq> set d"
  by (auto simp: siblings_def)

lemma in_siblings:
  "e \<in> set (siblings filePath d) \<longleftrightarrow> e \<in> set d \<and> is_sibling filePath (fst e)"
  by (auto simp: siblings_def)

lemma distinct_siblings: "distinct (map fst d) \<Longrightarrow> distinct (map fst (siblings filePath d))"
  by (simp add: siblings_def distinct_map_filter)

text \<open>Which names the cleanup unlinks.\<close>

lemma removed_names:
  assumes dist: "distinct (map fst d)"
    and times: "distinct (map (\<lambda>e. mtime (snd e)) (siblings filePath d))"
    and look: "map_of d n = Some f"
  shows "n \<in> set (map fst (drop k (sort_key (\<lambda>e. - mtime (snd e)) (siblings filePath d)))) \<longleftrightarrow>
         is_sibling filePath n \<and> k \<le> newer_count filePath d f"
proof -
  let ?sibs = "siblings filePath d"
  let ?sorted = "sort_key (\<lambda>e. - mtime (snd e)) ?sibs"
  have ind: "(n, f) \<in> set d" using look by (rule map_of_SomeD)
  have uniq: "g = f" if "(n, g) \<in> set d" for g
    using dist that look by simp
  have "distinct ?sibs"
    using distinct_siblings[OF dist] by (simp add: distinct_map)
  then have cnt: "newer_count filePath d f = card {e \<in> set ?sibs. mtime (snd e) > mtime f}"
    by (simp add: newer_count_def distinct_length_filter Int_def conj_commute)
  have "n \<in> set (map fst (drop k ?sorted)) \<longleftrightarrow> (n, f) \<in> set (drop k ?sorted)"
  proof
    assume "n \<in> set (map fst (drop k ?sorted))"
    then obtain g where g: "(n, g) \<in> set (drop k ?sorted)" by auto
    then have "(n, g) \<in> set ?sorted" by (meson in_set_dropD)
    then have "(n, g) \<in> set d" using siblings_subset by auto
    with uniq g show "(n, f) \<in> set (drop k ?sorted)" by simp
  next
    assume "(n, f) \<in> set (drop k ?sorted)"
    then show "n \<in> set (map fst (drop k ?sorted))" by force
  qed
  also have "\<dots> \<longleftrightarrow> (n, f) \<in> set ?sorted \<and>
      k \<le> card {y \<in> set ?sorted. - mtime (snd y) < - mtime (snd (n, f))}"
    by (rule strict_sorted_drop[OF sort_newest_first_strict[OF times]])
  also have "\<dots> \<longleftrightarrow> is_sibling filePath n \<and> k \<le> newer_count filePath d f"
    using ind by (simp add: cnt in_siblings)
  finally show ?thesis .
qed

lemma try_unlink_unlocked:
  assumes "\<forall>e \<in> set d. fst e = a \<longrightarrow> \<not> locked (snd e)"
  shows "try_unlink d a = filter (\<lambda>e. fst e \<noteq> a) d"
proof (cases "map_of d a")
  case None
  then have "\<forall>e \<in> set d. fst e \<noteq> a"
    by (auto simp: map_of_eq_None_iff)
  then have "filter (\<lambda>e. fst e \<noteq> a) d = d" by (simp add: filter_id_conv)
  with None show ?thesis by (simp add: try_unlink_def unlinkSync_def)
next
  case (Some f)
  then have "(a, f) \<in> set d" by (rule map_of_SomeD)
  with assms have "\<not> locked f" by force
  with Some show ?thesis by (simp add: try_unlink_def unlinkSync_def)
qed

lemma foldl_try_unlink_unlocked:
  assumes "\<forall>e \<in> set d. fst e \<in> set ns \<longrightarrow> \<not> locked (snd e)"
  shows "foldl try_unlink d ns = filter (\<lambda>e. fst e \<notin> set ns) d"
  using assms
proof (induction ns arbitrary: d)
  case Nil
  then show ?case by simp
next
  case (Cons a ns)
  have step: "try_unlink d a = filter (\<lambda>e. fst e \<noteq> a) d"
    using Cons.prems by (intro try_unlink_unlocked) simp
  have "foldl try_unlink (filter (\<lambda>e. fst e \<noteq> a) d) ns =
        filter (\<lambda>e. fst e \<notin> set ns) (filter (\<lambda>e. fst e \<noteq> a) d)"
    using Cons.prems by (intro Cons.IH) simp
  then show ?case
    by (simp add: step conj_commute)
qed

lemma length_filter_removed:
  assumes dx: "distinct (map fst xs)" and dr: "distinct rs" and sub: "set rs \<subseteq> set xs"
  shows "length (filter (\<lambda>e. fst e \<notin> set (map fst rs)) xs) = length xs - length rs"
proof -
  from dx have dxs: "distinct xs" and inj: "inj_on fst (set xs)"
    by (simp_all add: distinct_map)
  have "{e \<in> set xs. fst e \<notin> set (map fst rs)} = set xs - set rs"
  proof (intro equalityI subsetI)
    fix e assume "e \<in> {e \<in> set xs. fst e \<notin> set (map fst rs)}"
    then show "e \<in> set xs - set rs" by force
  next
    fix e assume e: "e \<in> set xs - set rs"
    have "fst e \<notin> set (map fst rs)"
    proof
      assume "fst e \<in> set (map fst rs)"
      then obtain r where r: "r \<in> set rs" "fst r = fst e" by auto
      with sub e inj have "r = e" by (auto dest: inj_onD)
      with r e show False by simp
    qed
    with e show "e \<in> {e \<in> set xs. fst e \<notin> set (map fst rs)}" by simp
  qed
  then have "length (filter (\<lambda>e. fst e \<notin> set (map fst rs)) xs) = card (set xs - set rs)"
    using dxs by (simp add: distinct_length_filter Int_def conj_commute)
  also have "\<dots> = card (set xs) - card (set rs)"
    using sub by (simp add: card_Diff_subset)
  also have "\<dots> = length xs - length rs"
    using dxs dr by (simp add: distinct_card)
  finally show ?thesis .
qed

text \<open>Every name \<^verbatim>\<open>rotateFile\<close> gives a rotated file is the name of a sibling.\<close>

lemma rotated_is_sibling: "is_sibling filePath (rotatedPath isoStr filePath)"
proof -
  have "prefix (basename_ext filePath (extname filePath)) (rotatedPath isoStr filePath)"
    by (simp add: rotatedPath_def)
  moreover have "suffix (extname filePath) (rotatedPath isoStr filePath)"
    unfolding rotatedPath_def
    by (rule suffixI[of _ "basename_ext filePath (extname filePath) @ ''-'' @
          rotation_timestamp isoStr"]) simp
  ultimately show ?thesis
    by (simp add: is_sibling_def rotatedPath_neq)
qed

text \<open>
  Claim C6.  Let the directory hold \<open>M\<close> siblings of the active file (the
  entries \<^verbatim>\<open>cleanupOldFiles\<close> lists: name starting with the base name, ending
  with the extension, other than the active file) with distinct modification
  times, and let \<open>maxFiles = N\<close> with \<open>0 \<le> N < M\<close>.  After the cleanup an
  entry is gone exactly when it is a sibling with at least \<open>N\<close> newer siblings
  and its deletion did not fail; every other entry, the active file among
  them, is untouched, whichever deletions failed.  When no deletion fails,
  exactly \<open>N\<close> siblings remain.  The files rotation produced for this path
  are siblings.
\<close>

theorem cleanupOldFiles_retention:
  assumes dist: "distinct (map fst d)"
    and times: "distinct (map (\<lambda>e. mtime (snd e)) (siblings filePath d))"
    and N: "0 \<le> maxFiles opts"
    and M: "int (length (siblings filePath d)) > maxFiles opts"
  shows "map_of (cleanupOldFiles opts filePath d) n =
           (case map_of d n of
              None \<Rightarrow> None
            | Some f \<Rightarrow>
                if is_sibling filePath n \<and> maxFiles opts \<le> int (newer_count filePath d f) \<and>
                   \<not> locked f
                then None else Some f) \<and>
         map_of (cleanupOldFiles opts filePath d) filePath = map_of d filePath \<and>
         ((\<forall>e \<in> set (siblings filePath d). \<not> locked (snd e)) \<longrightarrow>
            int (length (siblings filePath (cleanupOldFiles opts filePath d))) = maxFiles opts) \<and>
         is_sibling filePath (rotatedPath isoStr filePath)"
proof -
  let ?sibs = "siblings filePath d"
  let ?sorted = "sort_key (\<lambda>e. - mtime (snd e)) ?sibs"
  let ?k = "nat (maxFiles opts)"
  let ?rem = "drop ?k ?sorted"
  have run: "cleanupOldFiles opts filePath d = foldl try_unlink d (map fst ?rem)"
    using N M by (simp add: cleanupOldFiles_def Let_def slice_from_def)
  have gen: "map_of (cleanupOldFiles opts filePath d) m =
           (case map_of d m of
              None \<Rightarrow> None
            | Some f \<Rightarrow>
                if is_sibling filePath m \<and> maxFiles opts \<le> int (newer_count filePath d f) \<and>
                   \<not> locked f
                then None else Some f)" for m
  proof (cases "map_of d m")
    case None
    then show ?thesis by (simp add: run map_of_foldl_try_unlink)
  next
    case (Some f)
    have "m \<in> set (map fst ?rem) \<longleftrightarrow> is_sibling filePath m \<and> ?k \<le> newer_count filePath d f"
      by (rule removed_names[OF dist times Some])
    moreover have "?k \<le> newer_count filePath d f \<longleftrightarrow> maxFiles opts \<le> int (newer_count filePath d f)"
      using N by linarith
    ultimately show ?thesis
      using Some by (simp only: run map_of_foldl_try_unlink option.case) simp
  qed
  have active: "map_of (cleanupOldFiles opts filePath d) filePath = map_of d filePath"
    by (simp add: gen[of filePath] is_sibling_def split: option.splits)
  have count: "int (length (siblings filePath (cleanupOldFiles opts filePath d))) = maxFiles opts"
    if unl: "\<forall>e \<in> set ?sibs. \<not> locked (snd e)"
  proof -
    have sub: "set ?rem \<subseteq> set ?sibs"
      by (metis set_drop_subset set_sort)
    have "\<forall>e \<in> set d. fst e \<in> set (map fst ?rem) \<longrightarrow> \<not> locked (snd e)"
    proof (intro ballI impI)
      fix e assume e: "e \<in> set d" and "fst e \<in> set (map fst ?rem)"
      then obtain r where r: "r \<in> set ?rem" "fst r = fst e" by auto
      with sub have rs: "r \<in> set ?sibs" by blast
      then have "r \<in> set d" using siblings_subset by blast
      with dist e r(2) have "r = e"
        by (metis eq_key_imp_eq_value prod.collapse)
      with rs unl show "\<not> locked (snd e)" by blast
    qed
    then have "cleanupOldFiles opts filePath d = filter (\<lambda>e. fst e \<notin> set (map fst ?rem)) d"
      unfolding run by (rule foldl_try_unlink_unlocked)
    then have "siblings filePath (cleanupOldFiles opts filePath d) =
        filter (\<lambda>e. fst e \<notin> set (map fst ?rem)) ?sibs"
      by (simp add: siblings_def conj_commute)
    moreover have "distinct ?rem"
      using distinct_siblings[OF dist] by (simp add: distinct_map)
    ultimately have "length (siblings filePath (cleanupOldFiles opts filePath d)) =
        length ?sibs - length ?rem"
      using length_filter_removed[OF distinct_siblings[OF dist] _ sub] by simp
    also have "\<dots> = ?k" using M N by simp
    finally show ?thesis using N by simp
  qed
  from gen[of n] active count rotated_is_sibling[of filePath isoStr] show ?thesis by blast
qed

theorem cleanupOldFiles_retention_witness:
  "distinct (map fst
     [(''app.log'', \<lparr>st_size = 10, mtime = 40, locked = False\<rparr>),
      (''app-1.log'', \<lparr>st_size = 10, mtime = 10, locked = False\<rparr>),
      (''app-2.log'', \<lparr>st_size = 10, mtime = 20, locked = True\<rparr>),
      (''app-3.log'', \<lparr>st_size = 10, mtime = 30, locked = False\<rparr>),
      (''other.txt'', \<lparr>st_size = 10, mtime = 5, locked = False\<rparr>)]) \<and>
   map fst (siblings ''app.log''
     [(''app.log'', \<lparr>st_size = 10, mtime = 40, locked = False\<rparr>),
      (''app-1.log'', \<lparr>st_size = 10, mtime = 10, locked = False\<rparr>),
      (''app-2.log'', \<lparr>st_size = 10, mtime = 20, locked = True\<rparr>),
      (''app-3.log'', \<lparr>st_size = 10, mtime = 30, locked = False\<rparr>),
      (''other.txt'', \<lparr>st_size = 10, mtime = 5, locked = False\<rparr>)])
     = [''app-1.log'', ''app-2.log'', ''app-3.log''] \<and>
   map (\<lambda>n. map_of (cleanupOldFiles \<lparr>enabled = True, maxSize = utf16 ''1k'', maxFiles = 1, compress = False\<rparr>
          ''app.log''
          [(''app.log'', \<lparr>st_size = 10, mtime = 40, locked = False\<rparr>),
           (''app-1.log'', \<lparr>st_size = 10, mtime = 10, locked = False\<rparr>),
           (''app-2.log'', \<lparr>st_size = 10, mtime = 20, locked = True\<rparr>),
           (''app-3.log'', \<lparr>st_size = 10, mtime = 30, locked = False\<rparr>),
           (''other.txt'', \<lparr>st_size = 10, mtime = 5, locked = False\<rparr>)]) n)
       [''app.log'', ''app-1.log'', ''app-2.log'', ''app-3.log'', ''other.txt'']
     = [Some \<lparr>st_size = 10, mtime = 40, locked = False\<rparr>,
        None,
        Some \<lparr>st_size = 10, mtime = 20, locked = True\<rparr>,
        Some \<lparr>st_size = 10, mtime = 30, locked = False\<rparr>,
        Some \<lparr>st_size = 10, mtime = 5, locked = False\<rparr>] \<and>
   length (siblings ''app.log''
     (cleanupOldFiles \<lparr>enabled = True, maxSize = utf16 ''1k'', maxFiles = 1, compress = False\<rparr>
        ''app.log''
        [(''app.log'', \<lparr>st_size = 10, mtime = 40, locked = False\<rparr>),
         (''app-1.log'', \<lparr>st_size = 10, mtime = 10, locked = False\<rparr>),
         (''app-3.log'', \<lparr>st_size = 10, mtime = 30, locked = False\<rparr>)])) = 1"
proof -
  let ?o = "\<lparr>enabled = True, maxSize = utf16 ''1k'', maxFiles = 1, compress = False\<rparr>"
  let ?a = "\<lparr>st_size = 10, mtime = 40, locked = False\<rparr>"
  let ?f1 = "\<lparr>st_size = 10, mtime = 10, locked = False\<rparr>"
  let ?f2 = "\<lparr>st_size = 10, mtime = 20, locked = True\<rparr>"
  let ?f3 = "\<lparr>st_size = 10, mtime = 30, locked = False\<rparr>"
  let ?x = "\<lparr>st_size = 10, mtime = 5, locked = False\<rparr>"
  let ?d = "[(''app.log'', ?a), (''app-1.log'', ?f1), (''app-2.log'', ?f2),
             (''app-3.log'', ?f3), (''other.txt'', ?x)]"
  let ?e = "[(''app.log'', ?a), (''app-1.log'', ?f1), (''app-3.log'', ?f3)]"
  have names: "extname ''app.log'' = ''.log''" "basename_ext ''app.log'' ''.log'' = ''app''"
    by (simp_all add: extname_def basename_ext_def suffix_to_prefix)
  have sib: "is_sibling ''app.log'' ''app-1.log''" "is_sibling ''app.log'' ''app-2.log''"
    "is_sibling ''app.log'' ''app-3.log''" "\<not> is_sibling ''app.log'' ''app.log''"
    "\<not> is_sibling ''app.log'' ''other.txt''"
    by (simp_all add: is_sibling_def names suffix_to_prefix)
  have sd: "siblings ''app.log'' ?d = [(''app-1.log'', ?f1), (''app-2.log'', ?f2), (''app-3.log'', ?f3)]"
    and se: "siblings ''app.log'' ?e = [(''app-1.log'', ?f1), (''app-3.log'', ?f3)]"
    by (simp_all add: siblings_def sib)
  have dd: "distinct (map fst ?d)" and de: "distinct (map fst ?e)" by simp_all
  have td: "distinct (map (\<lambda>e. mtime (snd e)) (siblings ''app.log'' ?d))"
    and te: "distinct (map (\<lambda>e. mtime (snd e)) (siblings ''app.log'' ?e))"
    by (simp_all add: sd se)
  have nd: "0 \<le> maxFiles ?o" "int (length (siblings ''app.log'' ?d)) > maxFiles ?o"
    and ne: "int (length (siblings ''app.log'' ?e)) > maxFiles ?o"
    by (simp_all add: sd se)
  have cnt: "newer_count ''app.log'' ?d ?f1 = 2" "newer_count ''app.log'' ?d ?f2 = 1"
    "newer_count ''app.log'' ?d ?f3 = 0"
    by (simp_all add: newer_count_def sd)
  note r = cleanupOldFiles_retention[OF dd td nd]
  have "map_of (cleanupOldFiles ?o ''app.log'' ?d) ''app.log'' = Some ?a"
    using r[of "''app.log''"] by (simp add: sib)
  moreover have "map_of (cleanupOldFiles ?o ''app.log'' ?d) ''app-1.log'' = None"
    using r[of "''app-1.log''"] by (simp add: sib cnt)
  moreover have "map_of (cleanupOldFiles ?o ''app.log'' ?d) ''app-2.log'' = Some ?f2"
    using r[of "''app-2.log''"] by (simp add: sib cnt)
  moreover have "map_of (cleanupOldFiles ?o ''app.log'' ?d) ''app-3.log'' = Some ?f3"
    using r[of "''app-3.log''"] by (simp add: sib cnt)
  moreover have "map_of (cleanupOldFiles ?o ''app.log'' ?d) ''other.txt'' = Some ?x"
    using r[of "''other.txt''"] by (simp add: sib)
  moreover have "length (siblings ''app.log'' (cleanupOldFiles ?o ''app.log'' ?e)) = 1"
    using cleanupOldFiles_retention[OF de te nd(1) ne, of "''app.log''"] by (simp add: se)
  moreover have "map fst (siblings ''app.log'' ?d) = [''app-1.log'', ''app-2.log'', ''app-3.log'']"
    by (simp add: sd)
  ultimately show ?thesis using dd by simp
qed


section \<open>Properties of the formatter and the logger\<close>

lemma formatLog_fails_iff:
  "isl (formatLog env l msg opts uc clc) = isl (stringify_metadata (metadata opts))"
  by (simp add: formatLog_def Let_def split: sum.splits option.splits)

lemma formatLog_Inl:
  "stringify_metadata (metadata opts) = Inl e \<Longrightarrow> formatLog env l msg opts uc clc = Inl e"
  by (simp add: formatLog_def Let_def)

text \<open>The shape of a formatted record around its trace line.\<close>

lemma formatLog_shape:
  assumes "formatLog env l msg opts uc clc = Inr out"
  shows "\<exists>ps ss. out = ps @ (''Trace Id: '' @ current_traceId env @ Colors_reset @ [newline]) @ ss"
proof -
  from assms obtain md where md: "stringify_metadata (metadata opts) = Inr md"
    by (cases "stringify_metadata (metadata opts)") (simp_all add: formatLog_def Let_def)
  define hd where "hd =
    color_of (fullLogColor opts) @ (if uc then Colors_bright else []) @ timestamp env @ '':'' @
    Colors_reset @ '' '' @ levelColor_of l (customColor opts) clc @ level_name l @ Colors_reset @
    '': '' @ color_of (fullLogColor opts) @ color_of (logColor opts) @ msg @ Colors_reset @
    [newline] @ color_of (fullLogColor opts) @ (if uc then Colors_dim else [])"
  define tl where "tl =
    color_of (fullLogColor opts) @ (if uc then Colors_dim else []) @ ''Function Name: '' @
    functionName opts @ Colors_reset @ [newline] @
    color_of (fullLogColor opts) @ (if uc then Colors_dim else []) @ ''Metadata: '' @ md @
    Colors_reset"
  define ex where "ex =
    [newline] @ color_of (fullLogColor opts) @ (if uc then Colors_red else []) @
    ''Error Stack: '' @ the (stack (the (error opts))) @ Colors_reset"
  let ?line = "''Trace Id: '' @ current_traceId env @ Colors_reset @ [newline]"
  from assms md have "out = hd @ ?line @ tl \<or> out = hd @ ?line @ tl @ ex"
    by (auto simp: formatLog_def Let_def hd_def tl_def ex_def split: option.splits if_splits)
  then show ?thesis by blast
qed

text \<open>
  Claim C8.  Whether \<^verbatim>\<open>formatLog\<close> fails does not depend on the scope (it
  fails exactly when the metadata cannot be serialised), and every record it
  returns holds the line \<^verbatim>\<open>Trace Id: <id>\<close>, where the identifier is the one of
  the active scope when there is one (the store \<^verbatim>\<open>httpLogger\<close> set up for the
  request holds the non-empty identifier it drew) and the freshly generated
  one when no scope is active.
\<close>

theorem formatLog_trace_id:
  "isl (formatLog env l msg opts uc clc) = isl (stringify_metadata (metadata opts)) \<and>
   (formatLog env l msg opts uc clc = Inr out \<longrightarrow>
      sublist (''Trace Id: '' @ current_traceId env @ Colors_reset @ [newline]) out) \<and>
   (store env = Some m \<and> m ''traceId'' = Some t \<and> t \<noteq> [] \<longrightarrow> current_traceId env = t) \<and>
   (u \<noteq> [] \<longrightarrow> current_traceId (env\<lparr>store := httpLogger_store u\<rparr>) = u) \<and>
   (store env = None \<longrightarrow> current_traceId env = uuid env)"
proof (intro conjI impI)
  show "isl (formatLog env l msg opts uc clc) = isl (stringify_metadata (metadata opts))"
    by (rule formatLog_fails_iff)
next
  assume "formatLog env l msg opts uc clc = Inr out"
  then show "sublist (''Trace Id: '' @ current_traceId env @ Colors_reset @ [newline]) out"
    unfolding sublist_def by (rule formatLog_shape)
next
  assume "store env = Some m \<and> m ''traceId'' = Some t \<and> t \<noteq> []"
  then show "current_traceId env = t" by (simp add: current_traceId_def)
next
  assume "u \<noteq> []"
  then show "current_traceId (env\<lparr>store := httpLogger_store u\<rparr>) = u"
    by (simp add: current_traceId_def httpLogger_store_def)
next
  assume "store env = None"
  then show "current_traceId env = uuid env" by (simp add: current_traceId_def)
qed

theorem formatLog_trace_id_witness:
  "formatLog \<lparr>store = httpLogger_store ''req-1'', uuid = ''uuid-a'', timestamp = ''12:00''\<rparr>
     Info ''hello''
     \<lparr>functionName = ''f'', metadata = None, error = None, customColor = None,
        logColor = None, fullLogColor = None\<rparr> False None
   = Inr (''12:00:'' @ Colors_reset @ '' '' @ Colors_green @ ''info'' @ Colors_reset @
          '': hello'' @ Colors_reset @ [newline] @
          ''Trace Id: req-1'' @ Colors_reset @ [newline] @
          ''Function Name: f'' @ Colors_reset @ [newline] @
          ''Metadata: {}'' @ Colors_reset) \<and>
   sublist (''Trace Id: req-1'' @ Colors_reset @ [newline])
     (''12:00:'' @ Colors_reset @ '' '' @ Colors_green @ ''info'' @ Colors_reset @
      '': hello'' @ Colors_reset @ [newline] @
      ''Trace Id: req-1'' @ Colors_reset @ [newline] @
      ''Function Name: f'' @ Colors_reset @ [newline] @
      ''Metadata: {}'' @ Colors_reset) \<and>
   current_traceId \<lparr>store = None, uuid = ''uuid-a'', timestamp = ''12:00''\<rparr> = ''uuid-a''"
proof -
  let ?e = "\<lparr>store = httpLogger_store ''req-1'', uuid = ''uuid-a'', timestamp = ''12:00''\<rparr>"
  let ?n = "\<lparr>store = None, uuid = ''uuid-a'', timestamp = ''12:00''\<rparr>"
  let ?opts = "\<lparr>functionName = ''f'', metadata = None, error = None, customColor = None,
        logColor = None, fullLogColor = None\<rparr>"
  let ?out = "''12:00:'' @ Colors_reset @ '' '' @ Colors_green @ ''info'' @ Colors_reset @
          '': hello'' @ Colors_reset @ [newline] @
          ''Trace Id: req-1'' @ Colors_reset @ [newline] @
          ''Function Name: f'' @ Colors_reset @ [newline] @
          ''Metadata: {}'' @ Colors_reset"
  have tid: "current_traceId ?e = ''req-1''"
    using formatLog_trace_id[of ?n Info "''hello''" ?opts False None "[]" "Map.empty" "[]" "''req-1''"]
    by simp
  have run: "formatLog ?e Info ''hello'' ?opts False None = Inr ?out"
    by (simp add: formatLog_def stringify_metadata_def color_of_def truthy_def
        levelColor_of_def DefaultLevelColors_def level_name_def current_traceId_def
        httpLogger_store_def)
  have "sublist (''Trace Id: '' @ current_traceId ?e @ Colors_reset @ [newline]) ?out"
    using formatLog_trace_id[of ?e Info "''hello''" ?opts False None ?out] run by blast
  then have sub: "sublist (''Trace Id: req-1'' @ Colors_reset @ [newline]) ?out"
    unfolding tid by simp
  have "current_traceId ?n = ''uuid-a''"
    using formatLog_trace_id[of ?n Info "''hello''" ?opts False None] by simp
  with run sub show ?thesis by blast
qed

text \<open>
  Claim C9, as amended.  The output of \<^verbatim>\<open>formatLog\<close> is determined by its
  arguments together with the time stamp it reads from the clock and the
  correlation identifier in effect.
\<close>

theorem formatLog_deterministic:
  "timestamp env1 = timestamp env2 \<and> current_traceId env1 = current_traceId env2 \<longrightarrow>
   formatLog env1 l msg opts uc clc = formatLog env2 l msg opts uc clc"
proof
  assume "timestamp env1 = timestamp env2 \<and> current_traceId env1 = current_traceId env2"
  then have t: "timestamp env1 = timestamp env2"
    and c: "current_traceId env1 = current_traceId env2"
    by simp_all
  show "formatLog env1 l msg opts uc clc = formatLog env2 l msg opts uc clc"
    unfolding formatLog_def t c by (rule refl)
qed

theorem formatLog_deterministic_witness:
  "formatLog \<lparr>store = httpLogger_store ''req-1'', uuid = ''uuid-a'', timestamp = ''12:00''\<rparr>
     Info ''hello''
     \<lparr>functionName = ''f'', metadata = None, error = None, customColor = None,
        logColor = None, fullLogColor = None\<rparr> False None
   = formatLog \<lparr>store = httpLogger_store ''req-1'', uuid = ''uuid-b'', timestamp = ''12:00''\<rparr>
     Info ''hello''
     \<lparr>functionName = ''f'', metadata = None, error = None, customColor = None,
        logColor = None, fullLogColor = None\<rparr> False None"
proof -
  let ?e1 = "\<lparr>store = httpLogger_store ''req-1'', uuid = ''uuid-a'', timestamp = ''12:00''\<rparr>"
  let ?e2 = "\<lparr>store = httpLogger_store ''req-1'', uuid = ''uuid-b'', timestamp = ''12:00''\<rparr>"
  have "timestamp ?e1 = timestamp ?e2 \<and> current_traceId ?e1 = current_traceId ?e2"
    by (simp add: current_traceId_def httpLogger_store_def)
  with formatLog_deterministic[of ?e1 ?e2] show ?thesis by blast
qed

text \<open>
  The claim as stated fails: with level, message, options, scope, colour flag
  and level colours the same, two calls at different readings of the clock
  return different strings.
\<close>

theorem formatLog_clock_counterexample:
  "formatLog \<lparr>store = httpLogger_store ''req-1'', uuid = ''uuid-a'', timestamp = ''12:00''\<rparr>
     Info ''hello''
     \<lparr>functionName = ''f'', metadata = None, error = None, customColor = None,
        logColor = None, fullLogColor = None\<rparr> False None
   \<noteq> formatLog \<lparr>store = httpLogger_store ''req-1'', uuid = ''uuid-a'', timestamp = ''12:01''\<rparr>
     Info ''hello''
     \<lparr>functionName = ''f'', metadata = None, error = None, customColor = None,
        logColor = None, fullLogColor = None\<rparr> False None"
  by (simp add: formatLog_def stringify_metadata_def color_of_def truthy_def)

lemma isEnabled_false_unchanged:
  "\<not> fst (isEnabled opts now s) \<Longrightarrow> snd (isEnabled opts now s) = s"
  by (simp add: isEnabled_def split: if_splits)

text \<open>
  The paths through \<^verbatim>\<open>log\<close>: suppressed by the level, suppressed by the open
  breaker, emitted (when the metadata serialises), and left by the exception
  of \<^verbatim>\<open>JSON.stringify\<close> (when it does not).  Here \<open>cb\<close> is the breaker as the
  gate leaves it: \<^verbatim>\<open>isEnabled()\<close> is consulted for error events only.
\<close>

lemma log_paths:
  fixes cfg env l msg opts s
  defines "cb \<equiv> (if l = Error
                  then snd (isEnabled (circuitBreakerOptions cfg) (now_isEnabled env)
                              (circuitBreaker s))
                  else circuitBreaker s)"
    and "open_gate \<equiv> (l = Error \<longrightarrow>
                  fst (isEnabled (circuitBreakerOptions cfg) (now_isEnabled env)
                         (circuitBreaker s)))"
    and "cenv \<equiv> \<lparr>store = scope env, uuid = uuid_console env, timestamp = timestamp_console env\<rparr>"
    and "fenv \<equiv> \<lparr>store = scope env, uuid = uuid_file env, timestamp = timestamp_file env\<rparr>"
  shows "(\<not> shouldLog cfg l \<longrightarrow> log cfg env l msg opts s = (None, s))"
    and "(shouldLog cfg l \<and> \<not> open_gate \<longrightarrow> log cfg env l msg opts s = (None, s))"
    and "(shouldLog cfg l \<and> open_gate \<and>
          formatLog cenv l msg opts (useColors cfg) (Some (customLevelColors cfg)) = Inr text \<and>
          formatLog fenv l msg opts False None = Inr fileText \<longrightarrow>
          log cfg env l msg opts s =
            (None,
             s\<lparr>circuitBreaker :=
                  (if l = Error
                   then incrementErrorCount (circuitBreakerOptions cfg) (now_increment env) cb
                   else cb),
                console := console s @ [(l, console_prefix cfg env l opts, text)],
                fileWrites := (if fileTransport cfg
                               then fileWrites s @ [removeColors fileText]
                               else fileWrites s)\<rparr>))"
    and "(shouldLog cfg l \<and> open_gate \<and> stringify_metadata (metadata opts) = Inl e \<longrightarrow>
          log cfg env l msg opts s = (Some e, s\<lparr>circuitBreaker := cb\<rparr>))"
proof -
  show "\<not> shouldLog cfg l \<longrightarrow> log cfg env l msg opts s = (None, s)"
    by (simp add: log_def)
  show "shouldLog cfg l \<and> \<not> open_gate \<longrightarrow> log cfg env l msg opts s = (None, s)"
    by (auto simp: log_def open_gate_def split_beta isEnabled_false_unchanged)
  show "shouldLog cfg l \<and> open_gate \<and>
          formatLog cenv l msg opts (useColors cfg) (Some (customLevelColors cfg)) = Inr text \<and>
          formatLog fenv l msg opts False None = Inr fileText \<longrightarrow>
          log cfg env l msg opts s =
            (None,
             s\<lparr>circuitBreaker :=
                  (if l = Error
                   then incrementErrorCount (circuitBreakerOptions cfg) (now_increment env) cb
                   else cb),
                console := console s @ [(l, console_prefix cfg env l opts, text)],
                fileWrites := (if fileTransport cfg
                               then fileWrites s @ [removeColors fileText]
                               else fileWrites s)\<rparr>)"
    by (auto simp: log_def open_gate_def cb_def cenv_def fenv_def split_beta writeToConsole_def)
  show "shouldLog cfg l \<and> open_gate \<and> stringify_metadata (metadata opts) = Inl e \<longrightarrow>
          log cfg env l msg opts s = (Some e, s\<lparr>circuitBreaker := cb\<rparr>)"
    by (auto simp: log_def open_gate_def cb_def split_beta formatLog_Inl)
qed

text \<open>
  Claim C2 at an input where it fails.  An error event with metadata that
  refers back to itself, on a logger at level \<^verbatim>\<open>debug\<close> with a closed breaker:
  \<^verbatim>\<open>log\<close> is left by the TypeError of \<^verbatim>\<open>JSON.stringify\<close>; nothing is written to
  the console or the file sink and the breaker does not count the failure.
\<close>

theorem log_error_event_not_emitted:
  "log \<lparr>logLevel = Debug, useColors = False, customLevelColors = Map.empty,
         fileTransport = True,
         circuitBreakerOptions =
           \<lparr>circuitBreakerCount = 3, circuitBreakerTime = 1000, circuitBreakerCooldown = 2000\<rparr>\<rparr>
       \<lparr>scope = None, now_isEnabled = 10, uuid_console = ''uuid-a'', timestamp_console = ''12:00'',
         consoleTimestamp = ''12:00:00.000'', pid = ''7'', uuid_file = ''uuid-b'',
         timestamp_file = ''12:00'', now_increment = 11\<rparr>
       Error ''boom''
       \<lparr>functionName = ''f'', metadata = Some [(''self'', JCircular)], error = None,
         customColor = None, logColor = None, fullLogColor = None\<rparr>
       \<lparr>circuitBreaker = new_breaker 0, console = [], fileWrites = []\<rparr>
   = (Some TypeError, \<lparr>circuitBreaker = new_breaker 0, console = [], fileWrites = []\<rparr>)"
  by (simp add: log_def shouldLog_def logLevels_indexOf_def isEnabled_def new_breaker_def
      formatLog_def stringify_metadata_def)

text \<open>
  Claim C3 at an input where it fails.  Absent metadata serialises as
  \<^verbatim>\<open>{}\<close>, but metadata that refers back to itself makes \<^verbatim>\<open>formatLog\<close> throw the
  TypeError of \<^verbatim>\<open>JSON.stringify\<close> instead of falling back to a marker string,
  and the error leaves \<^verbatim>\<open>log\<close> towards the caller.
\<close>

theorem formatLog_circular_metadata_throws:
  "stringify_metadata None = Inr ''{}'' \<and>
   formatLog \<lparr>store = None, uuid = ''uuid-a'', timestamp = ''12:00''\<rparr> Info ''hello''
       \<lparr>functionName = ''f'', metadata = Some [(''self'', JCircular)], error = None,
         customColor = None, logColor = None, fullLogColor = None\<rparr> True None
   = Inl TypeError \<and>
   fst (log \<lparr>logLevel = Info, useColors = True, customLevelColors = Map.empty,
              fileTransport = False,
              circuitBreakerOptions =
                \<lparr>circuitBreakerCount = 5, circuitBreakerTime = 30000,
                   circuitBreakerCooldown = 60000\<rparr>\<rparr>
            \<lparr>scope = None, now_isEnabled = 10, uuid_console = ''uuid-a'',
              timestamp_console = ''12:00'', consoleTimestamp = ''12:00:00.000'', pid = ''7'',
              uuid_file = ''uuid-b'', timestamp_file = ''12:00'', now_increment = 11\<rparr>
            Info ''hello''
            \<lparr>functionName = ''f'', metadata = Some [(''self'', JCircular)], error = None,
              customColor = None, logColor = None, fullLogColor = None\<rparr>
            \<lparr>circuitBreaker = new_breaker 0, console = [], fileWrites = []\<rparr>)
   = Some TypeError"
  by (simp add: log_def shouldLog_def logLevels_indexOf_def formatLog_def stringify_metadata_def)

subsection \<open>The record written to the file\<close>

text \<open>
  Claim C10, at an input where the code fails it.  The first half of the claim
  holds here as everywhere: with the colour flag false the output of
  \<^verbatim>\<open>formatLog\<close> still holds colour sequences, the reset code after the time
  stamp among them.  The second half does not: the message
  \<^verbatim>\<open>\x1b[\x1b[0m0m\<close> carries escape characters of its own, \<^verbatim>\<open>removeColors\<close>
  makes one pass over the record, and the text around the sequence it removes
  from the message closes up to the sequence \<^verbatim>\<open>\x1b[0m\<close>, which reaches the
  file.
\<close>

theorem log_file_record_keeps_colour_sequence:
  "formatLog \<lparr>store = None, uuid = ''uuid-b'', timestamp = ''12:00''\<rparr> Info
       (ESC # ''['' @ ESC # ''[0m0m'')
       \<lparr>functionName = ''f'', metadata = None, error = None, customColor = None,
         logColor = None, fullLogColor = None\<rparr> False None
   = Inr (''12:00:'' @ Colors_reset @ '' '' @ Colors_green @ ''info'' @ Colors_reset @
          '': '' @ (ESC # ''['' @ ESC # ''[0m0m'') @ Colors_reset @ [newline] @
          ''Trace Id: uuid-b'' @ Colors_reset @ [newline] @
          ''Function Name: f'' @ Colors_reset @ [newline] @
          ''Metadata: {}'' @ Colors_reset) \<and>
   has_sgr (''12:00:'' @ Colors_reset @ '' '' @ Colors_green @ ''info'' @ Colors_reset @
          '': '' @ (ESC # ''['' @ ESC # ''[0m0m'') @ Colors_reset @ [newline] @
          ''Trace Id: uuid-b'' @ Colors_reset @ [newline] @
          ''Function Name: f'' @ Colors_reset @ [newline] @
          ''Metadata: {}'' @ Colors_reset) \<and>
   fileWrites (snd (log
       \<lparr>logLevel = Info, useColors = False, customLevelColors = Map.empty,
         fileTransport = True,
         circuitBreakerOptions =
           \<lparr>circuitBreakerCount = 5, circuitBreakerTime = 30000,
              circuitBreakerCooldown = 60000\<rparr>\<rparr>
       \<lparr>scope = None, now_isEnabled = 10, uuid_console = ''uuid-a'', timestamp_console = ''12:00'',
         consoleTimestamp = ''12:00:00.000'', pid = ''7'', uuid_file = ''uuid-b'',
         timestamp_file = ''12:00'', now_increment = 11\<rparr>
       Info (ESC # ''['' @ ESC # ''[0m0m'')
       \<lparr>functionName = ''f'', metadata = None, error = None, customColor = None,
         logColor = None, fullLogColor = None\<rparr>
       \<lparr>circuitBreaker = new_breaker 0, console = [], fileWrites = []\<rparr>))
   = [''12:00: info: '' @ ESC # ''[0m'' @ [newline] @ ''Trace Id: uuid-b'' @ [newline] @
      ''Function Name: f'' @ [newline] @ ''Metadata: {}''] \<and>
   has_sgr (''12:00: info: '' @ ESC # ''[0m'' @ [newline] @ ''Trace Id: uuid-b'' @ [newline] @
      ''Function Name: f'' @ [newline] @ ''Metadata: {}'')"
proof -
  let ?e = "\<lparr>store = None, uuid = ''uuid-b'', timestamp = ''12:00''\<rparr>"
  let ?opts = "\<lparr>functionName = ''f'', metadata = None, error = None, customColor = None,
        logColor = None, fullLogColor = None\<rparr>"
  let ?msg = "ESC # ''['' @ ESC # ''[0m0m''"
  let ?out = "''12:00:'' @ Colors_reset @ '' '' @ Colors_green @ ''info'' @ Colors_reset @
          '': '' @ ?msg @ Colors_reset @ [newline] @
          ''Trace Id: uuid-b'' @ Colors_reset @ [newline] @
          ''Function Name: f'' @ Colors_reset @ [newline] @
          ''Metadata: {}'' @ Colors_reset"
  have run: "formatLog ?e Info ?msg ?opts False None = Inr ?out"
    by (simp add: formatLog_def stringify_metadata_def color_of_def truthy_def
        levelColor_of_def DefaultLevelColors_def level_name_def current_traceId_def)
  have sgr: "has_sgr ?out"
    by (simp add: match_sgr_def sgr_param_def ESC_def Colors_reset_def)
  have con: "\<exists>formatted. formatLog \<lparr>store = None, uuid = ''uuid-a'', timestamp = ''12:00''\<rparr>
      Info ?msg ?opts False (Some Map.empty) = Inr formatted"
    by (simp add: formatLog_def stringify_metadata_def Let_def)
  have strip: "removeColors ?out = ''12:00: info: '' @ ESC # ''[0m'' @ [newline] @
      ''Trace Id: uuid-b'' @ [newline] @ ''Function Name: f'' @ [newline] @ ''Metadata: {}''"
    by (simp add: match_sgr_def sgr_param_def ESC_def newline_def Colors_reset_def
        Colors_green_def)
  have "has_sgr (''12:00: info: '' @ ESC # ''[0m'' @ [newline] @ ''Trace Id: uuid-b'' @
      [newline] @ ''Function Name: f'' @ [newline] @ ''Metadata: {}'')"
    by (simp add: match_sgr_def sgr_param_def ESC_def newline_def)
  moreover from con obtain formatted where
    "formatLog \<lparr>store = None, uuid = ''uuid-a'', timestamp = ''12:00''\<rparr>
      Info ?msg ?opts False (Some Map.empty) = Inr formatted" by blast
  then have "fileWrites (snd (log
       \<lparr>logLevel = Info, useColors = False, customLevelColors = Map.empty,
         fileTransport = True,
         circuitBreakerOptions =
           \<lparr>circuitBreakerCount = 5, circuitBreakerTime = 30000,
              circuitBreakerCooldown = 60000\<rparr>\<rparr>
       \<lparr>scope = None, now_isEnabled = 10, uuid_console = ''uuid-a'', timestamp_console = ''12:00'',
         consoleTimestamp = ''12:00:00.000'', pid = ''7'', uuid_file = ''uuid-b'',
         timestamp_file = ''12:00'', now_increment = 11\<rparr>
       Info ?msg ?opts
       \<lparr>circuitBreaker = new_breaker 0, console = [], fileWrites = []\<rparr>))
     = [removeColors ?out]"
    using run by (simp add: log_def shouldLog_def logLevels_indexOf_def writeToConsole_def
        del: removeColors.simps(2))
  ultimately show ?thesis unfolding strip using run sgr by blast
qed


end
